theory Spec2Isabelle
  imports Complex_Main "HOL-Library.Word" "HOL-Library.Sublist" "HOL-Library.Monad_Syntax"
begin

unbundle bit_operations_syntax

section \<open>HRTF data sets of OpenAL Soft: enumeration, loading, caching and queries\<close>

text \<open>
  A shallow embedding of the HRTF translation unit (enumerator, the three loaders, the
  store builder, the sample-rate conditioner, the reference-counted cache and the
  point-source query \<open>GetHrtfCoeffs\<close>).

  Conventions of the embedding.
  \<^item> C strings are \<open>string\<close>s; a pointer into a C string is the suffix it points at.
  \<^item> Unsigned machine integers are \<open>nat\<close>s with every truncation written out
    (\<open>mod 2 ^ 16\<close> for \<open>ALushort\<close>, \<open>mod 2 ^ 8\<close> for \<open>ALubyte\<close>); the atomic
    reference count is a \<open>32 word\<close>.
  \<^item> \<open>float\<close> and \<open>double\<close> values are idealised as \<open>real\<close>s: rounding of
    single precision arithmetic is not modelled.
  \<^item> \<open>HRIR_LENGTH\<close> and \<open>HRTF_HISTORY_LENGTH\<close> come from a header that is not part of
    the sources; every function that depends on one of them takes it as a parameter.
\<close>

subsection \<open>Limits of a data set\<close>

definition MIN_IR_SIZE :: nat where "MIN_IR_SIZE = 8"
definition MAX_IR_SIZE :: nat where "MAX_IR_SIZE = 512"
definition MOD_IR_SIZE :: nat where "MOD_IR_SIZE = 2"

definition MIN_FD_COUNT :: nat where "MIN_FD_COUNT = 1"
definition MAX_FD_COUNT :: nat where "MAX_FD_COUNT = 16"

definition MIN_FD_DISTANCE :: nat where "MIN_FD_DISTANCE = 50"
definition MAX_FD_DISTANCE :: nat where "MAX_FD_DISTANCE = 2500"

definition MIN_EV_COUNT :: nat where "MIN_EV_COUNT = 5"
definition MAX_EV_COUNT :: nat where "MAX_EV_COUNT = 181"

definition MIN_AZ_COUNT :: nat where "MIN_AZ_COUNT = 1"
definition MAX_AZ_COUNT :: nat where "MAX_AZ_COUNT = 255"

text \<open>\<open>MAX_HRIR_DELAY\<close> is \<open>HRTF_HISTORY_LENGTH-1\<close>; the argument is the history length.\<close>

definition MAX_HRIR_DELAY :: "nat \<Rightarrow> nat" where
  "MAX_HRIR_DELAY history_length = history_length - 1"

definition HRIR_DELAY_FRACBITS :: nat where "HRIR_DELAY_FRACBITS = 2"
definition HRIR_DELAY_FRACONE :: nat where "HRIR_DELAY_FRACONE = 2 ^ HRIR_DELAY_FRACBITS"
definition HRIR_DELAY_FRACHALF :: nat where "HRIR_DELAY_FRACHALF = HRIR_DELAY_FRACONE div 2"

text \<open>The \<open>static_assert\<close> that follows the delay macros in the source.\<close>

definition delay_static_assert :: "nat \<Rightarrow> bool" where
  "delay_static_assert history_length =
     (1 \<le> history_length \<and> MAX_HRIR_DELAY history_length * HRIR_DELAY_FRACONE < 256)"

definition PassthruCoeff :: real where
  "PassthruCoeff = 0.707106781187"

subsection \<open>Enumeration: the \<open>hrtf-paths\<close> option\<close>

text \<open>\<open>isspace\<close> of the C locale.\<close>

definition isspace :: "char \<Rightarrow> bool" where
  "isspace c = (c = CHR '' '' \<or> c = CHR 0x09 \<or> c = CHR 0x0A \<or> c = CHR 0x0B
     \<or> c = CHR 0x0C \<or> c = CHR 0x0D)"

text \<open>The characters the inner loop \<open>while(isspace(*pathlist) || *pathlist == ',')\<close> skips.\<close>

definition is_sep :: "char \<Rightarrow> bool" where
  "is_sep c = (isspace c \<or> c = CHR '','')"

text \<open>\<open>while(end != pathlist && isspace(*(end-1))) --end;\<close> on the entry \<open>[pathlist, end)\<close>.\<close>

definition trim_end :: "string \<Rightarrow> string" where
  "trim_end s = rev (dropWhile isspace (rev s))"

text \<open>\<open>c_str()\<close>: the characters before the first NUL.\<close>

definition c_str :: "string \<Rightarrow> string" where
  "c_str s = takeWhile (\<lambda>c. c \<noteq> CHR 0x00) s"

text \<open>
  The loop \<open>while(pathlist && *pathlist)\<close> of \<open>EnumerateHrtf\<close>. The state is the rest of
  the list, the flag \<open>usedefaults\<close> and the path names searched so far, in order.
  \<open>strchr(pathlist, ',')\<close> finding a comma continues after it; finding none clears
  \<open>usedefaults\<close> and leaves \<open>next\<close> null, which ends the loop.
\<close>

function path_loop :: "string \<Rightarrow> bool \<Rightarrow> string list \<Rightarrow> bool \<times> string list" where
  "path_loop pathlist usedefaults pnames =
     (if pathlist = [] then (usedefaults, pnames)
      else
        let p = dropWhile is_sep pathlist in
        if p = [] then (usedefaults, pnames)
        else if CHR '','' \<in> set p then
          path_loop (tl (dropWhile (\<lambda>c. c \<noteq> CHR '','') p)) usedefaults
            (if trim_end (takeWhile (\<lambda>c. c \<noteq> CHR '','') p) \<noteq> []
             then pnames @ [trim_end (takeWhile (\<lambda>c. c \<noteq> CHR '','') p)] else pnames)
        else (False, if trim_end p \<noteq> [] then pnames @ [trim_end p] else pnames))"
  by pat_completeness auto
termination
proof (relation "measure (\<lambda>(p, u, acc). length p)")
  show "wf (measure (\<lambda>(p, u, acc). length p))" by simp
next
  fix pathlist :: string and usedefaults :: bool and pnames :: "string list" and x
  assume ne: "pathlist \<noteq> []" and x: "x = dropWhile is_sep pathlist" and "x \<noteq> []"
    and c: "CHR '','' \<in> set x"
  have "dropWhile (\<lambda>c. c \<noteq> CHR '','') x \<noteq> []"
    using c by (simp add: dropWhile_eq_Nil_conv)
  then have "length (tl (dropWhile (\<lambda>c. c \<noteq> CHR '','') x))
      < length (dropWhile (\<lambda>c. c \<noteq> CHR '','') x)"
    by (cases "dropWhile (\<lambda>c. c \<noteq> CHR '','') x") auto
  also have "\<dots> \<le> length x" by (rule length_dropWhile_le)
  also have "\<dots> \<le> length pathlist" unfolding x by (rule length_dropWhile_le)
  finally show "((tl (dropWhile (\<lambda>c. c \<noteq> CHR '','') x), usedefaults,
       if trim_end (takeWhile (\<lambda>c. c \<noteq> CHR '','') x) \<noteq> []
       then pnames @ [trim_end (takeWhile (\<lambda>c. c \<noteq> CHR '','') x)] else pnames),
      pathlist, usedefaults, pnames) \<in> measure (\<lambda>(p, u, acc). length p)" by simp
qed

declare path_loop.simps [simp del]

text \<open>
  The places \<open>EnumerateHrtf\<close> takes its entries from, in the order it visits them: a
  data-file search for an extension under a path, or the embedded resource of an index.
\<close>

datatype location = SearchDataFiles string string | BuiltInResource nat

definition IDR_DEFAULT_HRTF_MHR :: nat where "IDR_DEFAULT_HRTF_MHR = 1"

text \<open>The final value of \<open>usedefaults\<close>, given the \<open>hrtf-paths\<close> option (if set).\<close>

definition EnumerateHrtf_usedefaults :: "string option \<Rightarrow> bool" where
  "EnumerateHrtf_usedefaults pathopt =
     (case pathopt of None \<Rightarrow> True | Some s \<Rightarrow> fst (path_loop (c_str s) True []))"

text \<open>The path names of the option that are searched, in order.\<close>

definition EnumerateHrtf_pnames :: "string option \<Rightarrow> string list" where
  "EnumerateHrtf_pnames pathopt =
     (case pathopt of None \<Rightarrow> [] | Some s \<Rightarrow> snd (path_loop (c_str s) True []))"

definition EnumerateHrtf_locations :: "string option \<Rightarrow> location list" where
  "EnumerateHrtf_locations pathopt =
     map (SearchDataFiles ''.mhr'') (EnumerateHrtf_pnames pathopt) @
     (if EnumerateHrtf_usedefaults pathopt
      then [SearchDataFiles ''.mhr'' ''openal/hrtf'', BuiltInResource IDR_DEFAULT_HRTF_MHR]
      else [])"

text \<open>The text after the last comma of a list (the whole list when it has no comma).\<close>

definition final_entry :: "string \<Rightarrow> string" where
  "final_entry s = rev (takeWhile (\<lambda>c. c \<noteq> CHR '','') (rev s))"

text \<open>A list ends with a bare entry when something other than blanks follows its last comma.\<close>

definition bare_final_entry :: "string \<Rightarrow> bool" where
  "bare_final_entry s = (\<not> list_all isspace (final_entry s))"

lemma takeWhile_rev_no_comma:
  assumes "CHR '','' \<notin> set ys"
  shows "takeWhile (\<lambda>c. c \<noteq> CHR '','') (rev ys @ zs)
     = rev ys @ takeWhile (\<lambda>c. c \<noteq> CHR '','') zs"
  by (rule takeWhile_append2) (use assms in auto)

lemma final_entry_after_comma: "final_entry (xs @ CHR '','' # ys) = final_entry ys"
proof (cases "CHR '','' \<in> set ys")
  case True
  then have "takeWhile (\<lambda>c. c \<noteq> CHR '','') (rev ys @ CHR '','' # rev xs)
      = takeWhile (\<lambda>c. c \<noteq> CHR '','') (rev ys)"
    by (intro takeWhile_append1 [of "CHR '',''"]) auto
  then show ?thesis by (simp add: final_entry_def)
next
  case False
  then have a: "takeWhile (\<lambda>c. c \<noteq> CHR '','') (rev ys) = rev ys"
    by (auto simp: takeWhile_eq_all_conv)
  have b: "takeWhile (\<lambda>c. c \<noteq> CHR '','') (rev ys @ CHR '','' # rev xs) = rev ys"
    using takeWhile_rev_no_comma [OF False, of "CHR '','' # rev xs"] by simp
  have c: "rev (xs @ CHR '','' # ys) = rev ys @ CHR '','' # rev xs"
    by simp
  show ?thesis
    unfolding final_entry_def c b a by (rule refl)
qed

lemma final_entry_no_comma:
  assumes "CHR '','' \<notin> set ys"
  shows "final_entry (xs @ ys) = final_entry xs @ ys"
  using takeWhile_rev_no_comma [OF assms, of "rev xs"] by (simp add: final_entry_def)

lemma final_entry_seps:
  assumes "\<forall>c \<in> set xs. is_sep c"
  shows "list_all isspace (final_entry xs)"
proof -
  have "\<forall>c \<in> set (final_entry xs). c \<noteq> CHR '',''"
    using set_takeWhileD [of _ "\<lambda>c. c \<noteq> CHR '',''" "rev xs"] by (auto simp: final_entry_def)
  moreover have "set (final_entry xs) \<subseteq> set xs"
    using set_takeWhileD [of _ "\<lambda>c. c \<noteq> CHR '',''" "rev xs"] by (auto simp: final_entry_def)
  ultimately show ?thesis using assms by (auto simp: list_all_iff is_sep_def)
qed

lemma path_loop_usedefaults:
  "fst (path_loop pathlist usedefaults pnames)
     = (usedefaults \<and> list_all isspace (final_entry pathlist))"
proof (induction pathlist usedefaults pnames rule: path_loop.induct)
  case (1 pathlist usedefaults pnames)
  define p where "p = dropWhile is_sep pathlist"
  have split: "pathlist = takeWhile is_sep pathlist @ p"
    by (simp add: p_def)
  show ?case
  proof (cases "pathlist = []")
    case True
    then show ?thesis by (simp add: path_loop.simps final_entry_def)
  next
    case ne: False
    show ?thesis
    proof (cases "p = []")
      case True
      then have "\<forall>c \<in> set pathlist. is_sep c"
        by (simp add: p_def dropWhile_eq_Nil_conv)
      then have "list_all isspace (final_entry pathlist)" by (rule final_entry_seps)
      moreover have "path_loop pathlist usedefaults pnames = (usedefaults, pnames)"
        using ne True by (subst path_loop.simps) (simp add: p_def)
      ultimately show ?thesis by simp
    next
      case pne: False
      show ?thesis
      proof (cases "CHR '','' \<in> set p")
        case True
        define nxt where "nxt = tl (dropWhile (\<lambda>c. c \<noteq> CHR '','') p)"
        define acc where "acc = (if trim_end (takeWhile (\<lambda>c. c \<noteq> CHR '','') p) \<noteq> []
             then pnames @ [trim_end (takeWhile (\<lambda>c. c \<noteq> CHR '','') p)] else pnames)"
        have dne: "dropWhile (\<lambda>c. c \<noteq> CHR '','') p \<noteq> []"
          using True by (simp add: dropWhile_eq_Nil_conv)
        then have "hd (dropWhile (\<lambda>c. c \<noteq> CHR '','') p) = CHR '',''"
          using hd_dropWhile [of "\<lambda>c. c \<noteq> CHR '',''" p] by simp
        with dne have "dropWhile (\<lambda>c. c \<noteq> CHR '','') p = CHR '','' # nxt"
          by (cases "dropWhile (\<lambda>c. c \<noteq> CHR '','') p") (auto simp: nxt_def)
        then have "p = takeWhile (\<lambda>c. c \<noteq> CHR '','') p @ CHR '','' # nxt"
          using takeWhile_dropWhile_id [of "\<lambda>c. c \<noteq> CHR '',''" p] by simp
        then have "pathlist
            = (takeWhile is_sep pathlist @ takeWhile (\<lambda>c. c \<noteq> CHR '','') p) @ CHR '','' # nxt"
          using split by simp
        then have fe: "final_entry pathlist = final_entry nxt"
          using final_entry_after_comma
            [of "takeWhile is_sep pathlist @ takeWhile (\<lambda>c. c \<noteq> CHR '','') p" nxt]
          by simp
        have step: "path_loop pathlist usedefaults pnames = path_loop nxt usedefaults acc"
          using ne pne True
          by (subst path_loop.simps) (simp add: p_def [symmetric] nxt_def acc_def Let_def)
        have "fst (path_loop nxt usedefaults acc)
            = (usedefaults \<and> list_all isspace (final_entry nxt))"
          using "1.IH" [OF ne p_def pne True] by (simp add: nxt_def acc_def)
        then show ?thesis using step fe by simp
      next
        case False
        have "\<not> is_sep (hd p)"
          using pne hd_dropWhile [of is_sep pathlist] by (simp add: p_def)
        then have "\<not> isspace (hd p)" by (simp add: is_sep_def)
        moreover have "hd p \<in> set p" using pne by simp
        moreover have "final_entry pathlist = final_entry (takeWhile is_sep pathlist) @ p"
          using final_entry_no_comma [OF False, of "takeWhile is_sep pathlist"] split by simp
        ultimately have "\<not> list_all isspace (final_entry pathlist)"
          by (auto simp: list_all_iff)
        moreover have "fst (path_loop pathlist usedefaults pnames) = False"
          using ne pne False
          by (subst path_loop.simps) (simp add: p_def [symmetric] Let_def)
        ultimately show ?thesis by simp
      qed
    qed
  qed
qed

text \<open>
  C3, as the code has it. When the \<open>hrtf-paths\<close> option is present and names at least one
  path, the default locations (the search of \<open>openal/hrtf\<close> and the built-in resource) are
  appended to the searched paths exactly when the list does not end with a bare final
  entry: a comma after the last entry keeps the defaults, a last entry with no comma
  after it drops them.
\<close>

theorem EnumerateHrtf_defaults_rule:
  assumes "EnumerateHrtf_pnames (Some s) \<noteq> []"
  shows "EnumerateHrtf_locations (Some s) =
     map (SearchDataFiles ''.mhr'') (EnumerateHrtf_pnames (Some s)) @
     (if bare_final_entry (c_str s) then []
      else [SearchDataFiles ''.mhr'' ''openal/hrtf'', BuiltInResource IDR_DEFAULT_HRTF_MHR])"
  by (simp add: EnumerateHrtf_locations_def EnumerateHrtf_usedefaults_def
      path_loop_usedefaults bare_final_entry_def)

theorem EnumerateHrtf_defaults_rule_witness:
  "EnumerateHrtf_pnames (Some ''/opt/hrtf, sets ,'') = [''/opt/hrtf'', ''sets'']
   \<and> \<not> bare_final_entry (c_str ''/opt/hrtf, sets ,'')
   \<and> EnumerateHrtf_locations (Some ''/opt/hrtf, sets ,'') =
       [SearchDataFiles ''.mhr'' ''/opt/hrtf'', SearchDataFiles ''.mhr'' ''sets'',
        SearchDataFiles ''.mhr'' ''openal/hrtf'', BuiltInResource IDR_DEFAULT_HRTF_MHR]"
proof -
  have names: "EnumerateHrtf_pnames (Some ''/opt/hrtf, sets ,'') = [''/opt/hrtf'', ''sets'']"
    by (simp add: EnumerateHrtf_pnames_def path_loop.simps c_str_def is_sep_def isspace_def
        trim_end_def)
  have bare: "\<not> bare_final_entry (c_str ''/opt/hrtf, sets ,'')"
    by (simp add: bare_final_entry_def final_entry_def c_str_def)
  have "EnumerateHrtf_pnames (Some ''/opt/hrtf, sets ,'') \<noteq> []"
    using names by simp
  from EnumerateHrtf_defaults_rule [OF this] names bare show ?thesis by simp
qed

text \<open>
  The sentence of C3 read literally (a trailing comma turns the defaults off, a bare final
  entry leaves them on) is the opposite of what the loop does: \<open>/opt/hrtf,\<close> keeps
  \<open>usedefaults\<close> and \<open>/opt/hrtf\<close> clears it.
\<close>

theorem EnumerateHrtf_trailing_comma_counterexample:
  "EnumerateHrtf_usedefaults (Some ''/opt/hrtf,'')
   \<and> \<not> EnumerateHrtf_usedefaults (Some ''/opt/hrtf'')"
  by (simp add: EnumerateHrtf_usedefaults_def path_loop.simps c_str_def is_sep_def isspace_def
      trim_end_def)

subsection \<open>The store\<close>

type_synonym float2 = "real \<times> real"

record Field =
  distance :: real
  evCount :: nat

record Elevation =
  azCount :: nat
  irOffset :: nat

text \<open>
  \<open>HrtfStore\<close>: the header and its four tables. \<open>coeffs\<close> holds one row of
  \<open>HRIR_LENGTH\<close> stereo taps per IR, \<open>delays\<close> one pair (left, right) of fixed-point
  delays per IR.
\<close>

record HrtfStore =
  mRef :: "32 word"
  sampleRate :: nat
  irSize :: nat
  fdCount :: nat
  field :: "Field list"
  elev :: "Elevation list"
  coeffs :: "float2 list list"
  delays :: "(nat \<times> nat) list"

subsection \<open>The point-source query\<close>

text \<open>
  Modelled from the spec: \<open>float2uint\<close> and \<open>fastf2u\<close> are helpers of a header that is
  not among the sources; the spec asks for an unsigned floor-to-int convention and for
  delays rounded down, so both are the floor, read as an \<open>ALuint\<close>. (A negative argument
  is outside what a C conversion to unsigned defines; here it gives 0.)
\<close>

definition float2uint :: "real \<Rightarrow> nat" where
  "float2uint f = nat \<lfloor>f\<rfloor> mod 2 ^ 32"

definition fastf2u :: "real \<Rightarrow> nat" where
  "fastf2u f = nat \<lfloor>f\<rfloor> mod 2 ^ 32"

text \<open>\<open>n-1\<close> in \<open>ALuint\<close> arithmetic.\<close>

definition ALuint_pred :: "nat \<Rightarrow> nat" where
  "ALuint_pred n = (n + 2 ^ 32 - 1) mod 2 ^ 32"

text \<open>\<open>IdxBlend\<close> is the pair (idx, blend).\<close>

definition CalcEvIndex :: "nat \<Rightarrow> real \<Rightarrow> nat \<times> real" where
  "CalcEvIndex evcount ev =
     (let ev' = (pi * 0.5 + ev) * real (ALuint_pred evcount) / pi;
          idx = float2uint ev'
      in (min idx (ALuint_pred evcount), ev' - real idx))"

definition CalcAzIndex :: "nat \<Rightarrow> real \<Rightarrow> nat \<times> real" where
  "CalcAzIndex azcount az =
     (let az' = (2 * pi + az) * real azcount / (2 * pi);
          idx = float2uint az'
      in (idx mod azcount, az' - real idx))"

text \<open>
  The loop \<open>while(distance < field->distance && field != field_end)\<close>. The first numeric
  argument counts the fields left before \<open>field_end\<close>; the result is the index of the
  field chosen and \<open>ebase\<close>.
\<close>

fun field_walk :: "real \<Rightarrow> Field list \<Rightarrow> nat \<Rightarrow> nat \<Rightarrow> nat \<Rightarrow> nat \<times> nat" where
  "field_walk dist_m fs 0 i ebase = (i, ebase)"
| "field_walk dist_m fs (Suc k) i ebase =
     (if dist_m < distance (fs ! i)
      then field_walk dist_m fs k (i + 1) (ebase + evCount (fs ! i))
      else (i, ebase))"

text \<open>The array \<open>idx[4]\<close> of \<open>GetHrtfCoeffs\<close>.\<close>

definition hrir_indices :: "HrtfStore \<Rightarrow> real \<Rightarrow> real \<Rightarrow> real \<Rightarrow> nat list" where
  "hrir_indices Hrtf elevation azimuth dist_m =
     (let (fi, ebase) = field_walk dist_m (field Hrtf) (fdCount Hrtf - 1) 0 0;
          evcount = evCount (field Hrtf ! fi);
          elev0 = CalcEvIndex evcount elevation;
          elev1_idx = min (fst elev0 + 1) (ALuint_pred evcount);
          ir0offset = irOffset (elev Hrtf ! (ebase + fst elev0));
          ir1offset = irOffset (elev Hrtf ! (ebase + elev1_idx));
          az0 = CalcAzIndex (azCount (elev Hrtf ! (ebase + fst elev0))) azimuth;
          az1 = CalcAzIndex (azCount (elev Hrtf ! (ebase + elev1_idx))) azimuth
      in [ir0offset + fst az0,
          ir0offset + ((fst az0 + 1) mod azCount (elev Hrtf ! (ebase + fst elev0))),
          ir1offset + fst az1,
          ir1offset + ((fst az1 + 1) mod azCount (elev Hrtf ! (ebase + elev1_idx)))])"

text \<open>The array \<open>blend[4]\<close> of \<open>GetHrtfCoeffs\<close>.\<close>

definition blend_weights :: "HrtfStore \<Rightarrow> real \<Rightarrow> real \<Rightarrow> real \<Rightarrow> real \<Rightarrow> real list" where
  "blend_weights Hrtf elevation azimuth dist_m spread =
     (let dirfact = 1 - spread / (2 * pi);
          (fi, ebase) = field_walk dist_m (field Hrtf) (fdCount Hrtf - 1) 0 0;
          evcount = evCount (field Hrtf ! fi);
          elev0 = CalcEvIndex evcount elevation;
          elev1_idx = min (fst elev0 + 1) (ALuint_pred evcount);
          az0 = CalcAzIndex (azCount (elev Hrtf ! (ebase + fst elev0))) azimuth;
          az1 = CalcAzIndex (azCount (elev Hrtf ! (ebase + elev1_idx))) azimuth
      in [(1 - snd elev0) * (1 - snd az0) * dirfact,
          (1 - snd elev0) * (snd az0) * dirfact,
          (snd elev0) * (1 - snd az1) * dirfact,
          (snd elev0) * (snd az1) * dirfact])"

text \<open>The lambda \<open>blend_coeffs\<close>, and one \<open>std::transform\<close> over the first \<open>irSize\<close> taps.\<close>

definition blend_coeffs :: "real \<Rightarrow> real \<Rightarrow> real \<Rightarrow> real" where
  "blend_coeffs mult src coeff = src * mult + coeff"

definition accumulate_hrir :: "nat \<Rightarrow> float2 list \<Rightarrow> real \<Rightarrow> float2 list \<Rightarrow> float2 list" where
  "accumulate_hrir irsize srccoeffs mult coeffout =
     map (\<lambda>j. if j < irsize
              then (blend_coeffs mult (fst (srccoeffs ! j)) (fst (coeffout ! j)),
                    blend_coeffs mult (snd (srccoeffs ! j)) (snd (coeffout ! j)))
              else coeffout ! j) [0..<length coeffout]"

text \<open>
  \<open>GetHrtfCoeffs\<close>. The first argument is \<open>HRIR_LENGTH\<close>; the result is the pair of the
  outputs \<open>coeffs\<close> and \<open>delays\<close>. The last term of the right delay is weighted with
  \<open>blend[1]\<close>, as the source has it.
\<close>

definition GetHrtfCoeffs ::
  "nat \<Rightarrow> HrtfStore \<Rightarrow> real \<Rightarrow> real \<Rightarrow> real \<Rightarrow> real \<Rightarrow> float2 list \<times> (nat \<times> nat)" where
  "GetHrtfCoeffs HRIR_LENGTH Hrtf elevation azimuth dist_m spread =
     (let dirfact = 1 - spread / (2 * pi);
          idx = hrir_indices Hrtf elevation azimuth dist_m;
          blend = blend_weights Hrtf elevation azimuth dist_m spread;
          d0 = real (fst (delays Hrtf ! (idx ! 0))) * blend ! 0
             + real (fst (delays Hrtf ! (idx ! 1))) * blend ! 1
             + real (fst (delays Hrtf ! (idx ! 2))) * blend ! 2
             + real (fst (delays Hrtf ! (idx ! 3))) * blend ! 3;
          d1 = real (snd (delays Hrtf ! (idx ! 0))) * blend ! 0
             + real (snd (delays Hrtf ! (idx ! 1))) * blend ! 1
             + real (snd (delays Hrtf ! (idx ! 2))) * blend ! 2
             + real (snd (delays Hrtf ! (idx ! 3))) * blend ! 1;
          coeffout = (replicate HRIR_LENGTH (0, 0))
             [0 := (PassthruCoeff * (1 - dirfact), PassthruCoeff * (1 - dirfact))]
      in (fold (\<lambda>c. accumulate_hrir (irSize Hrtf) (coeffs Hrtf ! (idx ! c)) (blend ! c))
            [0, 1, 2, 3] coeffout,
          (fastf2u (d0 * (1 / real HRIR_DELAY_FRACONE)),
           fastf2u (d1 * (1 / real HRIR_DELAY_FRACONE)))))"

text \<open>
  The delay the specification asks for, in its words: the floor of the weighted sum of the
  four corner delays of one ear, each corner with its own weight, divided by
  \<open>HRIR_DELAY_FRACONE\<close>. \<open>ear\<close> selects the channel of a delay pair.
\<close>

definition weighted_delay ::
  "HrtfStore \<Rightarrow> nat list \<Rightarrow> real list \<Rightarrow> (nat \<times> nat \<Rightarrow> nat) \<Rightarrow> nat" where
  "weighted_delay Hrtf idx blend ear =
     fastf2u ((\<Sum>k \<leftarrow> [0, 1, 2, 3]. blend ! k * real (ear (delays Hrtf ! (idx ! k))))
        / real HRIR_DELAY_FRACONE)"

lemma blend_weights_omni:
  "blend_weights Hrtf elevation azimuth dist_m (2 * pi) = [0, 0, 0, 0]"
  by (simp add: blend_weights_def Let_def split: prod.splits)

lemma accumulate_hrir_zero: "accumulate_hrir irsize src 0 out = out"
  by (auto simp: accumulate_hrir_def blend_coeffs_def intro: nth_equalityI)

text \<open>
  C4. With \<open>spread = 2\<pi>\<close> the directional factor is 0, so all four weights vanish:
  whatever the store, elevation, azimuth and distance, the first output tap pair is
  \<open>(PassthruCoeff, PassthruCoeff)\<close>, every other output coefficient is 0, and both delays
  are 0.
\<close>

theorem GetHrtfCoeffs_omni:
  "GetHrtfCoeffs HRIR_LENGTH Hrtf elevation azimuth dist_m (2 * pi)
   = ((replicate HRIR_LENGTH (0, 0)) [0 := (PassthruCoeff, PassthruCoeff)], (0, 0))"
  by (simp add: GetHrtfCoeffs_def blend_weights_omni accumulate_hrir_zero fastf2u_def Let_def)

theorem GetHrtfCoeffs_omni_witness:
  "GetHrtfCoeffs 4 \<lparr> mRef = 1, sampleRate = 48000, irSize = 8, fdCount = 1,
      field = [\<lparr> distance = 0, evCount = 5 \<rparr>], elev = [], coeffs = [], delays = [] \<rparr>
      0 0 0 (2 * pi)
   = ([(PassthruCoeff, PassthruCoeff), (0, 0), (0, 0), (0, 0)], (0, 0))"
proof -
  have "replicate 4 (0 :: real, 0 :: real) = [(0, 0), (0, 0), (0, 0), (0, 0)]"
    by (simp add: numeral_eq_Suc)
  with GetHrtfCoeffs_omni [of 4 "\<lparr> mRef = 1, sampleRate = 48000, irSize = 8, fdCount = 1,
      field = [\<lparr> distance = 0, evCount = 5 \<rparr>], elev = [], coeffs = [], delays = [] \<rparr>" 0 0 0]
  show ?thesis by simp
qed

text \<open>The left delay is the weighted sum of the specification.\<close>

lemma GetHrtfCoeffs_left_delay:
  "fst (snd (GetHrtfCoeffs HRIR_LENGTH Hrtf elevation azimuth dist_m spread))
   = weighted_delay Hrtf (hrir_indices Hrtf elevation azimuth dist_m)
       (blend_weights Hrtf elevation azimuth dist_m spread) fst"
  by (simp add: GetHrtfCoeffs_def weighted_delay_def Let_def algebra_simps)

text \<open>
  A store of one field with five elevations of 1, 4, 8, 4 and 1 azimuths (18 IRs). Only
  IR 6 has a right delay, of 10 samples (40 in fixed point).
\<close>

definition slip_store :: HrtfStore where
  "slip_store = \<lparr> mRef = 1, sampleRate = 44100, irSize = 8, fdCount = 1,
     field = [\<lparr> distance = 0, evCount = 5 \<rparr>],
     elev = [\<lparr> azCount = 1, irOffset = 0 \<rparr>, \<lparr> azCount = 4, irOffset = 1 \<rparr>,
             \<lparr> azCount = 8, irOffset = 5 \<rparr>, \<lparr> azCount = 4, irOffset = 13 \<rparr>,
             \<lparr> azCount = 1, irOffset = 17 \<rparr>],
     coeffs = replicate 18 (replicate 8 (0, 0)),
     delays = replicate 6 (0, 0) @ [(0, 40)] @ replicate 11 (0, 0) \<rparr>"

text \<open>The same grid with every delay at the largest value a 64-sample history allows.\<close>

definition full_delay_store :: HrtfStore where
  "full_delay_store = slip_store \<lparr> delays := replicate 18 (252, 252) \<rparr>"

lemma CalcEvIndex_between: "CalcEvIndex 5 (- (pi / 8)) = (1, 1 / 2)"
  by (simp add: CalcEvIndex_def ALuint_pred_def float2uint_def Let_def field_simps)

lemma CalcAzIndex_4_eighth: "CalcAzIndex 4 (pi / 8) = (0, 1 / 4)"
  by (simp add: CalcAzIndex_def float2uint_def Let_def field_simps)

lemma CalcAzIndex_8_eighth: "CalcAzIndex 8 (pi / 8) = (0, 1 / 2)"
  by (simp add: CalcAzIndex_def float2uint_def Let_def field_simps)

lemma slip_indices: "hrir_indices slip_store (- (pi / 8)) (pi / 8) 1 = [1, 2, 5, 6]"
  by (simp add: hrir_indices_def slip_store_def CalcEvIndex_between CalcAzIndex_4_eighth
      CalcAzIndex_8_eighth ALuint_pred_def Let_def)

lemma slip_weights:
  "blend_weights slip_store (- (pi / 8)) (pi / 8) 1 0 = [3 / 8, 1 / 8, 1 / 4, 1 / 4]"
  by (simp add: blend_weights_def slip_store_def CalcEvIndex_between CalcAzIndex_4_eighth
      CalcAzIndex_8_eighth ALuint_pred_def Let_def)

text \<open>
  C1 fails on the code. At elevation \<open>-\<pi>/8\<close>, azimuth \<open>\<pi>/8\<close> and no spread the corners
  are the IRs 1, 2, 5, 6 with weights 3/8, 1/8, 1/4, 1/4. The weighted sum of the right
  delays is \<open>40 \<cdot> 1/4 = 10\<close>, that is 2 samples; \<open>GetHrtfCoeffs\<close> weights the fourth corner
  with \<open>blend[1] = 1/8\<close> and returns 1.
\<close>

theorem GetHrtfCoeffs_right_delay_slip:
  "snd (snd (GetHrtfCoeffs 128 slip_store (- (pi / 8)) (pi / 8) 1 0)) = 1
   \<and> weighted_delay slip_store (hrir_indices slip_store (- (pi / 8)) (pi / 8) 1)
        (blend_weights slip_store (- (pi / 8)) (pi / 8) 1 0) snd = 2"
proof
  show "snd (snd (GetHrtfCoeffs 128 slip_store (- (pi / 8)) (pi / 8) 1 0)) = 1"
    by (simp add: GetHrtfCoeffs_def slip_indices slip_weights Let_def fastf2u_def
        HRIR_DELAY_FRACONE_def HRIR_DELAY_FRACBITS_def)
      (simp add: slip_store_def nth_append)
  show "weighted_delay slip_store (hrir_indices slip_store (- (pi / 8)) (pi / 8) 1)
        (blend_weights slip_store (- (pi / 8)) (pi / 8) 1 0) snd = 2"
    by (simp add: weighted_delay_def slip_indices slip_weights fastf2u_def
        HRIR_DELAY_FRACONE_def HRIR_DELAY_FRACBITS_def)
      (simp add: slip_store_def nth_append)
qed

lemma CalcEvIndex_near: "CalcEvIndex 5 (- (7 * pi / 32)) = (1, 1 / 8)"
  by (simp add: CalcEvIndex_def ALuint_pred_def float2uint_def Let_def field_simps)

lemma CalcAzIndex_4_three_eighths: "CalcAzIndex 4 (3 * pi / 8) = (0, 3 / 4)"
  by (simp add: CalcAzIndex_def float2uint_def Let_def field_simps)

lemma CalcAzIndex_8_three_eighths: "CalcAzIndex 8 (3 * pi / 8) = (1, 1 / 2)"
  by (simp add: CalcAzIndex_def float2uint_def Let_def field_simps)

lemma full_indices:
  "hrir_indices full_delay_store (- (7 * pi / 32)) (3 * pi / 8) 1 = [1, 2, 6, 7]"
  by (simp add: hrir_indices_def full_delay_store_def slip_store_def CalcEvIndex_near
      CalcAzIndex_4_three_eighths CalcAzIndex_8_three_eighths ALuint_pred_def Let_def)

lemma full_weights:
  "blend_weights full_delay_store (- (7 * pi / 32)) (3 * pi / 8) 1 0
   = [7 / 32, 21 / 32, 1 / 16, 1 / 16]"
  by (simp add: blend_weights_def full_delay_store_def slip_store_def CalcEvIndex_near
      CalcAzIndex_4_three_eighths CalcAzIndex_8_three_eighths ALuint_pred_def Let_def)

text \<open>
  C10 fails on the code, by the same slip. With a history of 64 samples
  (\<open>MAX_HRIR_DELAY = 63\<close>) and every stored delay at the bound 252, the query at elevation
  \<open>-7\<pi>/32\<close>, azimuth \<open>3\<pi>/8\<close> and no spread returns the left delay 63 and the right delay
  100: the weights used for the right ear are 7/32, 21/32, 1/16 and again 21/32, which
  sum to more than 1.
\<close>

theorem GetHrtfCoeffs_right_delay_exceeds:
  "list_all (\<lambda>d. fst d \<le> MAX_HRIR_DELAY 64 * HRIR_DELAY_FRACONE
                \<and> snd d \<le> MAX_HRIR_DELAY 64 * HRIR_DELAY_FRACONE) (delays full_delay_store)
   \<and> snd (GetHrtfCoeffs 128 full_delay_store (- (7 * pi / 32)) (3 * pi / 8) 1 0) = (63, 100)
   \<and> MAX_HRIR_DELAY 64 = 63"
proof (intro conjI)
  show "list_all (\<lambda>d. fst d \<le> MAX_HRIR_DELAY 64 * HRIR_DELAY_FRACONE
                \<and> snd d \<le> MAX_HRIR_DELAY 64 * HRIR_DELAY_FRACONE) (delays full_delay_store)"
    by (simp add: full_delay_store_def list_all_iff MAX_HRIR_DELAY_def HRIR_DELAY_FRACONE_def
        HRIR_DELAY_FRACBITS_def)
  show "snd (GetHrtfCoeffs 128 full_delay_store (- (7 * pi / 32)) (3 * pi / 8) 1 0) = (63, 100)"
    by (simp add: GetHrtfCoeffs_def full_indices full_weights Let_def fastf2u_def
        HRIR_DELAY_FRACONE_def HRIR_DELAY_FRACBITS_def)
      (simp add: full_delay_store_def)
  show "MAX_HRIR_DELAY 64 = 63"
    by (simp add: MAX_HRIR_DELAY_def)
qed

subsection \<open>The cache of loaded stores and its reference counts\<close>

record HrtfEntry =
  mDispName :: string
  mFilename :: string

text \<open>
  A slot of \<open>LoadedHrtfs\<close>. The slot owns its store (\<open>std::unique_ptr\<close>), so the store is
  part of the slot's value; a pointer to a loaded store is the index of its slot.
\<close>

record LoadedHrtf =
  mFilename :: string
  mEntry :: "HrtfStore option"

text \<open>The predicate \<open>remove_unused\<close> of \<open>DecRef\<close>.\<close>

definition remove_unused :: "LoadedHrtf \<Rightarrow> bool" where
  "remove_unused hrtf =
     (case mEntry hrtf of None \<Rightarrow> False | Some entry \<Rightarrow> mRef entry = 0)"

text \<open>
  \<open>std::remove_if\<close> followed by \<open>erase\<close>: one pass over the slots, each tested once, the
  ones that fail the test moved to the front in the order they are met.
\<close>

fun remove_if_erase :: "('a \<Rightarrow> bool) \<Rightarrow> 'a list \<Rightarrow> 'a list" where
  "remove_if_erase pred [] = []"
| "remove_if_erase pred (x # xs) =
     (if pred x then remove_if_erase pred xs else x # remove_if_erase pred xs)"

text \<open>\<open>IncRef\<close> and \<open>DecRef\<close> on the store of slot \<open>this\<close>; \<open>None\<close> when there is no such store.\<close>

definition IncRef :: "nat \<Rightarrow> LoadedHrtf list \<Rightarrow> LoadedHrtf list option" where
  "IncRef this LoadedHrtfs =
     (if this < length LoadedHrtfs then
        (case mEntry (LoadedHrtfs ! this) of
           None \<Rightarrow> None
         | Some store \<Rightarrow>
             Some (LoadedHrtfs [this := (LoadedHrtfs ! this)
                     \<lparr> mEntry := Some (store \<lparr> mRef := mRef store + 1 \<rparr>) \<rparr>]))
      else None)"

definition DecRef :: "nat \<Rightarrow> LoadedHrtf list \<Rightarrow> LoadedHrtf list option" where
  "DecRef this LoadedHrtfs =
     (if this < length LoadedHrtfs then
        (case mEntry (LoadedHrtfs ! this) of
           None \<Rightarrow> None
         | Some store \<Rightarrow>
             (let ref = mRef store - 1;
                  decremented = LoadedHrtfs [this := (LoadedHrtfs ! this)
                     \<lparr> mEntry := Some (store \<lparr> mRef := ref \<rparr>) \<rparr>]
              in Some (if ref = 0 then remove_if_erase remove_unused decremented
                       else decremented)))
      else None)"

text \<open>The cache with the count of slot \<open>this\<close> decremented and nothing swept yet.\<close>

definition decremented_cache :: "nat \<Rightarrow> LoadedHrtf list \<Rightarrow> LoadedHrtf list" where
  "decremented_cache this LoadedHrtfs =
     (case mEntry (LoadedHrtfs ! this) of
        None \<Rightarrow> LoadedHrtfs
      | Some store \<Rightarrow> LoadedHrtfs [this := (LoadedHrtfs ! this)
                     \<lparr> mEntry := Some (store \<lparr> mRef := mRef store - 1 \<rparr>) \<rparr>])"

lemma remove_if_erase_filter: "remove_if_erase pred xs = filter (\<lambda>x. \<not> pred x) xs"
  by (induction xs) simp_all

lemma remove_if_erase_subseq: "subseq (remove_if_erase pred xs) xs"
  by (simp add: remove_if_erase_filter)

text \<open>
  C9. When \<open>DecRef\<close> takes the count of a loaded store from 1 to 0, the cache it leaves
  is the cache with that count decremented, minus exactly the slots whose store has the
  count 0: a slot is in the result if and only if it was in the cache and it has no store
  or a store with a nonzero count, and the result is a subsequence of the cache, so the
  survivors keep their order.
\<close>

theorem DecRef_sweeps_unused:
  assumes "this < length LoadedHrtfs"
    and "mEntry (LoadedHrtfs ! this) = Some store"
    and "mRef store = 1"
  shows "\<exists>swept. DecRef this LoadedHrtfs = Some swept
     \<and> swept = filter (\<lambda>h. \<not> remove_unused h) (decremented_cache this LoadedHrtfs)
     \<and> set swept = {h \<in> set (decremented_cache this LoadedHrtfs).
           mEntry h = None \<or> (\<exists>entry. mEntry h = Some entry \<and> mRef entry \<noteq> 0)}
     \<and> subseq swept (decremented_cache this LoadedHrtfs)"
proof -
  have "DecRef this LoadedHrtfs
      = Some (remove_if_erase remove_unused (decremented_cache this LoadedHrtfs))"
    using assms by (simp add: DecRef_def decremented_cache_def Let_def)
  moreover have "set (filter (\<lambda>h. \<not> remove_unused h) (decremented_cache this LoadedHrtfs))
      = {h \<in> set (decremented_cache this LoadedHrtfs).
           mEntry h = None \<or> (\<exists>entry. mEntry h = Some entry \<and> mRef entry \<noteq> 0)}"
    by (auto simp: remove_unused_def split: option.splits)
  ultimately show ?thesis
    by (simp add: remove_if_erase_filter)
qed

text \<open>
  A cache of four slots: a store still referenced twice, the store released here
  (count 1), a slot without a store, and a store whose count another release has already
  taken to 0.
\<close>

definition counted_store :: "32 word \<Rightarrow> HrtfStore" where
  "counted_store n = \<lparr> mRef = n, sampleRate = 44100, irSize = 8, fdCount = 1,
     field = [\<lparr> distance = 0, evCount = 5 \<rparr>], elev = [], coeffs = [], delays = [] \<rparr>"

definition example_cache :: "LoadedHrtf list" where
  "example_cache =
     [\<lparr> mFilename = ''a.mhr'', mEntry = Some (counted_store 2) \<rparr>,
      \<lparr> mFilename = ''b.mhr'', mEntry = Some (counted_store 1) \<rparr>,
      \<lparr> mFilename = ''c.mhr'', mEntry = None \<rparr>,
      \<lparr> mFilename = ''d.mhr'', mEntry = Some (counted_store 0) \<rparr>]"

theorem DecRef_sweeps_unused_witness:
  "DecRef 1 example_cache =
     Some [\<lparr> mFilename = ''a.mhr'', mEntry = Some (counted_store 2) \<rparr>,
           \<lparr> mFilename = ''c.mhr'', mEntry = None \<rparr>]"
proof -
  have 1: "1 < length example_cache"
    by (simp add: example_cache_def)
  have 2: "mEntry (example_cache ! 1) = Some (counted_store 1)"
    by (simp add: example_cache_def)
  have 3: "mRef (counted_store 1) = 1"
    by (simp add: counted_store_def)
  from DecRef_sweeps_unused [OF 1 2 3]
  have "DecRef 1 example_cache
      = Some (filter (\<lambda>h. \<not> remove_unused h) (decremented_cache 1 example_cache))"
    by auto
  then show ?thesis
    by (simp add: decremented_cache_def example_cache_def remove_unused_def counted_store_def)
qed

subsection \<open>Little-endian readers\<close>

text \<open>
  An input stream is the list of the bytes not yet read. \<open>data.get()\<close> takes one byte;
  at the end of the data it sets the stream's fail and eof bits, which every loader tests
  before it uses what it has read: a read that runs out of data is \<open>None\<close>.
\<close>

type_synonym istream = "8 word list"

definition stream_get :: "istream \<Rightarrow> (int \<times> istream) option" where
  "stream_get data = (case data of [] \<Rightarrow> None | b # rest \<Rightarrow> Some (uint b, rest))"

definition GetLE_ALubyte :: "istream \<Rightarrow> (nat \<times> istream) option" where
  "GetLE_ALubyte data = do {
     (ret, d1) \<leftarrow> stream_get data;
     Some (nat (ret mod 256), d1) }"

text \<open>\<open>static_cast<ALshort>\<close> of an \<open>int\<close>.\<close>

definition to_ALshort :: "int \<Rightarrow> int" where
  "to_ALshort v = (v + 32768) mod 65536 - 32768"

definition GetLE_ALshort :: "istream \<Rightarrow> (int \<times> istream) option" where
  "GetLE_ALshort data = do {
     (b0, d1) \<leftarrow> stream_get data;
     (b1, d2) \<leftarrow> stream_get d1;
     Some (to_ALshort (((b0 OR push_bit 8 b1) XOR 32768) - 32768), d2) }"

definition GetLE_ALushort :: "istream \<Rightarrow> (nat \<times> istream) option" where
  "GetLE_ALushort data = do {
     (b0, d1) \<leftarrow> stream_get data;
     (b1, d2) \<leftarrow> stream_get d1;
     Some (nat ((b0 OR push_bit 8 b1) mod 65536), d2) }"

definition GetLE_ALint24 :: "istream \<Rightarrow> (int \<times> istream) option" where
  "GetLE_ALint24 data = do {
     (b0, d1) \<leftarrow> stream_get data;
     (b1, d2) \<leftarrow> stream_get d1;
     (b2, d3) \<leftarrow> stream_get d2;
     Some (((b0 OR push_bit 8 b1 OR push_bit 16 b2) XOR 8388608) - 8388608, d3) }"

definition GetLE_ALuint :: "istream \<Rightarrow> (nat \<times> istream) option" where
  "GetLE_ALuint data = do {
     (b0, d1) \<leftarrow> stream_get data;
     (b1, d2) \<leftarrow> stream_get d1;
     (b2, d3) \<leftarrow> stream_get d2;
     (b3, d4) \<leftarrow> stream_get d3;
     Some (nat ((b0 OR push_bit 8 b1 OR push_bit 16 b2 OR push_bit 24 b3) mod 2 ^ 32), d4) }"

text \<open>Filling a vector of \<open>n\<close> elements with one reader, front to back.\<close>

fun read_n :: "nat \<Rightarrow> (istream \<Rightarrow> ('a \<times> istream) option) \<Rightarrow> istream
    \<Rightarrow> ('a list \<times> istream) option" where
  "read_n 0 rd data = Some ([], data)"
| "read_n (Suc n) rd data =
     (case rd data of
        None \<Rightarrow> None
      | Some (x, d1) \<Rightarrow>
          (case read_n n rd d1 of
             None \<Rightarrow> None
           | Some (xs, d2) \<Rightarrow> Some (x # xs, d2)))"

text \<open>A 16-bit and a 24-bit sample as a coefficient.\<close>

definition read_sample16 :: "istream \<Rightarrow> (real \<times> istream) option" where
  "read_sample16 data = do {
     (v, d1) \<leftarrow> GetLE_ALshort data;
     Some (real_of_int v / 32768, d1) }"

definition read_sample24 :: "istream \<Rightarrow> (real \<times> istream) option" where
  "read_sample24 data = do {
     (v, d1) \<leftarrow> GetLE_ALint24 data;
     Some (real_of_int v / 8388608, d1) }"

text \<open>
  An element of which only \<open>val[0]\<close> is read (the vectors are value-initialised, so
  \<open>val[1]\<close> is 0), and one of which both are read, left first.
\<close>

definition left_only :: "(istream \<Rightarrow> ('a \<times> istream) option) \<Rightarrow> 'a \<Rightarrow> istream
    \<Rightarrow> (('a \<times> 'a) \<times> istream) option" where
  "left_only rd zero data = do {
     (l, d1) \<leftarrow> rd data;
     Some ((l, zero), d1) }"

definition left_right :: "(istream \<Rightarrow> ('a \<times> istream) option) \<Rightarrow> istream
    \<Rightarrow> (('a \<times> 'a) \<times> istream) option" where
  "left_right rd data = do {
     (l, d1) \<leftarrow> rd data;
     (r, d2) \<leftarrow> rd d1;
     Some ((l, r), d2) }"

subsection \<open>The store builder\<close>

text \<open>
  What ends a load without a store. \<open>ReadFailed\<close>, \<open>Unsupported\<close> and \<open>OutOfMemory\<close>
  are the loaders' null returns. \<open>MemoryFault\<close> stands for an access outside a vector
  or array, which the source does not check and C++ leaves undefined.
\<close>

datatype load_error = ReadFailed | Unsupported | OutOfMemory | MemoryFault

text \<open>
  \<open>CreateHrtfStore\<close>. \<open>alloc_ok\<close> tells whether the allocation succeeds. Each IR row
  has \<open>HRIR_LENGTH\<close> taps: the first \<open>irSize\<close> are copied and the rest are zero. Writing
  \<open>irSize\<close> taps into a shorter row would leave the row.
\<close>

definition CreateHrtfStore :: "nat \<Rightarrow> bool \<Rightarrow> nat \<Rightarrow> nat \<Rightarrow> nat \<Rightarrow> nat list \<Rightarrow> nat list
    \<Rightarrow> nat list \<Rightarrow> nat list \<Rightarrow> nat \<Rightarrow> float2 list \<Rightarrow> (nat \<times> nat) list
    \<Rightarrow> load_error + HrtfStore" where
  "CreateHrtfStore HRIR_LENGTH alloc_ok rate irsize fdcount evcounts distances azcounts
       iroffsets ircount coeffs_in delays_in =
     (if \<not> alloc_ok then Inl OutOfMemory
      else if HRIR_LENGTH < irsize then Inl MemoryFault
      else Inr \<lparr>
        mRef = 1,
        sampleRate = rate,
        irSize = irsize,
        fdCount = fdcount,
        field = map (\<lambda>i. \<lparr> distance = real (distances ! i) / 1000, evCount = evcounts ! i \<rparr>)
                  [0..<fdcount],
        elev = map (\<lambda>i. \<lparr> azCount = azcounts ! i, irOffset = iroffsets ! i \<rparr>)
                  [0..<sum_list (take fdcount evcounts)],
        coeffs = map (\<lambda>i. map (\<lambda>j. if j < irsize then coeffs_in ! (i * irsize + j) else (0, 0))
                                [0..<HRIR_LENGTH]) [0..<ircount],
        delays = map (\<lambda>i. delays_in ! i) [0..<ircount] \<rparr>)"

subsection \<open>Validation and mirroring shared by the loaders\<close>

definition bad_ir_size :: "nat \<Rightarrow> bool" where
  "bad_ir_size irsize =
     (irsize < MIN_IR_SIZE \<or> irsize > MAX_IR_SIZE \<or> irsize mod MOD_IR_SIZE \<noteq> 0)"

definition bad_ev_count :: "nat \<Rightarrow> bool" where
  "bad_ev_count evcount = (evcount < MIN_EV_COUNT \<or> evcount > MAX_EV_COUNT)"

definition bad_az_count :: "nat \<Rightarrow> bool" where
  "bad_az_count azcount = (azcount < MIN_AZ_COUNT \<or> azcount > MAX_AZ_COUNT)"

text \<open>\<open>delays[i][c] <<= HRIR_DELAY_FRACBITS\<close> on an \<open>ALubyte\<close>.\<close>

definition shift_delay :: "nat \<Rightarrow> nat" where
  "shift_delay d = (d * 2 ^ HRIR_DELAY_FRACBITS) mod 256"

text \<open>
  The IR offsets of consecutive elevations: 0, then each offset plus the azimuth count
  before it, kept in an \<open>ALushort\<close>.
\<close>

fun running_offsets :: "nat \<Rightarrow> nat list \<Rightarrow> nat list" where
  "running_offsets acc [] = []"
| "running_offsets acc (a # as) = acc # running_offsets ((acc + a) mod 65536) as"

text \<open>\<open>xs[r].right = xs[l].left\<close> on a vector of (left, right) pairs.\<close>

definition copy_left_to_right :: "nat \<Rightarrow> nat \<Rightarrow> ('a \<times> 'a) list \<Rightarrow> ('a \<times> 'a) list" where
  "copy_left_to_right l r xs = xs [r := (fst (xs ! r), fst (xs ! l))]"

text \<open>The body of the innermost mirroring loop, for the IRs \<open>lidx\<close> and \<open>ridx\<close>.\<close>

definition mirror_ir :: "nat \<Rightarrow> nat \<Rightarrow> nat
    \<Rightarrow> float2 list \<times> (nat \<times> nat) list \<Rightarrow> float2 list \<times> (nat \<times> nat) list" where
  "mirror_ir irsize lidx ridx st =
     (fold (\<lambda>k. copy_left_to_right (lidx * irsize + k) (ridx * irsize + k)) [0..<irsize] (fst st),
      copy_left_to_right lidx ridx (snd st))"

text \<open>The loop over the azimuths of one elevation, given as (evoffset, azcount).\<close>

definition mirror_elevation :: "nat \<Rightarrow> nat \<times> nat
    \<Rightarrow> float2 list \<times> (nat \<times> nat) list \<Rightarrow> float2 list \<times> (nat \<times> nat) list" where
  "mirror_elevation irsize ev st =
     fold (\<lambda>a. mirror_ir irsize (fst ev + a) (fst ev + ((snd ev - a) mod snd ev)))
       [0..<snd ev] st"

text \<open>
  The loop over all elevations, in the order of the elevation table. It reads and writes
  the IRs \<open>evoffset + a\<close> for \<open>a < azcount\<close>; when one of them is not an IR of the
  vectors (whose length is \<open>ircount\<close>) the source leaves its vectors.
\<close>

definition mirror_left_to_right :: "nat \<Rightarrow> nat \<Rightarrow> nat list \<Rightarrow> nat list
    \<Rightarrow> float2 list \<times> (nat \<times> nat) list
    \<Rightarrow> load_error + float2 list \<times> (nat \<times> nat) list" where
  "mirror_left_to_right irsize ircount evOffset azcounts st =
     (if list_all (\<lambda>ev. fst ev + snd ev \<le> ircount) (zip evOffset azcounts)
      then Inr (fold (mirror_elevation irsize) (zip evOffset azcounts) st)
      else Inl MemoryFault)"

subsection \<open>The loaders of the formats 0 and 1\<close>

text \<open>
  What \<open>LoadHrtf00\<close> and \<open>LoadHrtf01\<close> do alike once the elevation table is known: read
  the 16-bit coefficients and the delays of the left ear, check and scale the delays,
  mirror, and build a store of one field at distance 0.
\<close>

definition load_left_ear :: "nat \<Rightarrow> nat \<Rightarrow> bool \<Rightarrow> nat \<Rightarrow> nat \<Rightarrow> nat \<Rightarrow> nat list \<Rightarrow> nat list
    \<Rightarrow> nat \<Rightarrow> istream \<Rightarrow> load_error + HrtfStore" where
  "load_left_ear HRIR_LENGTH history_length alloc_ok rate irsize evcount azcounts evOffset
       ircount data =
     (case do { (cs, d1) \<leftarrow> read_n (irsize * ircount) (left_only read_sample16 0) data;
                (ds, d2) \<leftarrow> read_n ircount (left_only GetLE_ALubyte 0) d1;
                Some (cs, ds) } of
        None \<Rightarrow> Inl ReadFailed
      | Some (cs, ds) \<Rightarrow>
          if list_ex (\<lambda>d. MAX_HRIR_DELAY history_length < fst d) ds then Inl Unsupported
          else
            (case mirror_left_to_right irsize ircount evOffset azcounts
                    (cs, map (\<lambda>d. (shift_delay (fst d), snd d)) ds) of
               Inl e \<Rightarrow> Inl e
             | Inr (cs', ds') \<Rightarrow>
                 CreateHrtfStore HRIR_LENGTH alloc_ok rate irsize 1 [evcount] [0] azcounts
                   evOffset ircount cs' ds'))"

text \<open>The test of the loop over \<open>evOffset\<close>: each entry greater than the one before.\<close>

fun increasing_offsets :: "nat list \<Rightarrow> bool" where
  "increasing_offsets (x # y # ys) = (x < y \<and> increasing_offsets (y # ys))"
| "increasing_offsets ys = True"

text \<open>\<open>static_cast<ALushort>(a - b)\<close>.\<close>

definition ALushort_diff :: "nat \<Rightarrow> nat \<Rightarrow> nat" where
  "ALushort_diff a b = nat ((int a - int b) mod 65536)"

text \<open>The azimuth counts of format 0: the gaps of \<open>evOffset\<close>, the last up to \<open>irCount\<close>.\<close>

fun offsets_to_counts :: "nat \<Rightarrow> nat list \<Rightarrow> nat list" where
  "offsets_to_counts ircount [] = []"
| "offsets_to_counts ircount [x] = [ALushort_diff ircount x]"
| "offsets_to_counts ircount (x # y # ys) = ALushort_diff y x # offsets_to_counts ircount (y # ys)"

definition LoadHrtf00 :: "nat \<Rightarrow> nat \<Rightarrow> bool \<Rightarrow> istream \<Rightarrow> load_error + HrtfStore" where
  "LoadHrtf00 HRIR_LENGTH history_length alloc_ok data =
     (case do { (rate, d1) \<leftarrow> GetLE_ALuint data;
                (ircount, d2) \<leftarrow> GetLE_ALushort d1;
                (irsize, d3) \<leftarrow> GetLE_ALushort d2;
                (evcount, d4) \<leftarrow> GetLE_ALubyte d3;
                Some (rate, ircount, irsize, evcount, d4) } of
        None \<Rightarrow> Inl ReadFailed
      | Some (rate, ircount, irsize, evcount, d4) \<Rightarrow>
          if bad_ir_size irsize \<or> bad_ev_count evcount then Inl Unsupported
          else
            (case read_n evcount GetLE_ALushort d4 of
               None \<Rightarrow> Inl ReadFailed
             | Some (evOffset, d5) \<Rightarrow>
                 if \<not> increasing_offsets evOffset \<or> ircount \<le> last evOffset
                 then Inl Unsupported
                 else if list_ex bad_az_count (offsets_to_counts ircount evOffset)
                 then Inl Unsupported
                 else load_left_ear HRIR_LENGTH history_length alloc_ok rate irsize evcount
                        (offsets_to_counts ircount evOffset) evOffset ircount d5))"

text \<open>\<open>irCount\<close> of format 1: the azimuth counts added up in an \<open>ALushort\<close>.\<close>

definition ALushort_sum :: "nat list \<Rightarrow> nat" where
  "ALushort_sum azcounts = fold (\<lambda>a acc. (acc + a) mod 65536) (tl azcounts) (hd azcounts)"

definition LoadHrtf01 :: "nat \<Rightarrow> nat \<Rightarrow> bool \<Rightarrow> istream \<Rightarrow> load_error + HrtfStore" where
  "LoadHrtf01 HRIR_LENGTH history_length alloc_ok data =
     (case do { (rate, d1) \<leftarrow> GetLE_ALuint data;
                (irsize, d2) \<leftarrow> GetLE_ALubyte d1;
                (evcount, d3) \<leftarrow> GetLE_ALubyte d2;
                Some (rate, irsize, evcount, d3) } of
        None \<Rightarrow> Inl ReadFailed
      | Some (rate, irsize, evcount, d3) \<Rightarrow>
          if bad_ir_size irsize \<or> bad_ev_count evcount then Inl Unsupported
          else
            (case read_n evcount GetLE_ALubyte d3 of
               None \<Rightarrow> Inl ReadFailed
             | Some (azcounts, d4) \<Rightarrow>
                 if list_ex bad_az_count azcounts then Inl Unsupported
                 else load_left_ear HRIR_LENGTH history_length alloc_ok rate irsize evcount
                        azcounts (running_offsets 0 azcounts) (ALushort_sum azcounts) d4))"

subsection \<open>The loader of format 2\<close>

definition SAMPLETYPE_S16 :: nat where "SAMPLETYPE_S16 = 0"
definition SAMPLETYPE_S24 :: nat where "SAMPLETYPE_S24 = 1"

definition CHANTYPE_LEFTONLY :: nat where "CHANTYPE_LEFTONLY = 0"
definition CHANTYPE_LEFTRIGHT :: nat where "CHANTYPE_LEFTRIGHT = 1"

text \<open>
  The loop over the fields. The first argument counts the fields still to read; the
  lists are \<open>distance\<close>, \<open>evCount\<close> and \<open>azCount\<close> as read so far.
\<close>

fun read_fields :: "nat \<Rightarrow> nat list \<Rightarrow> nat list \<Rightarrow> nat list \<Rightarrow> istream
    \<Rightarrow> load_error + (nat list \<times> nat list \<times> nat list) \<times> istream" where
  "read_fields 0 distances evcounts azcounts data = Inr ((distances, evcounts, azcounts), data)"
| "read_fields (Suc n) distances evcounts azcounts data =
     (case do { (dist_mm, d1) \<leftarrow> GetLE_ALushort data;
                (evcount, d2) \<leftarrow> GetLE_ALubyte d1;
                Some (dist_mm, evcount, d2) } of
        None \<Rightarrow> Inl ReadFailed
      | Some (dist_mm, evcount, d2) \<Rightarrow>
          if dist_mm < MIN_FD_DISTANCE \<or> dist_mm > MAX_FD_DISTANCE
             \<or> (distances \<noteq> [] \<and> dist_mm \<le> last distances)
             \<or> bad_ev_count evcount
          then Inl Unsupported
          else
            (case read_n evcount GetLE_ALubyte d2 of
               None \<Rightarrow> Inl ReadFailed
             | Some (azs, d3) \<Rightarrow>
                 if list_ex bad_az_count azs then Inl Unsupported
                 else read_fields n (distances @ [dist_mm]) (evcounts @ [evcount])
                        (azcounts @ azs) d3))"

definition read_sample :: "nat \<Rightarrow> istream \<Rightarrow> (real \<times> istream) option" where
  "read_sample sampleType =
     (if sampleType = SAMPLETYPE_S16 then read_sample16 else read_sample24)"

text \<open>
  The coefficients and delays of format 2, with the delays checked against
  \<open>MAX_HRIR_DELAY\<close> and scaled: of the left ear only, or of both ears.
\<close>

definition read_ir_data :: "nat \<Rightarrow> nat \<Rightarrow> nat \<Rightarrow> nat \<Rightarrow> nat \<Rightarrow> istream
    \<Rightarrow> load_error + float2 list \<times> (nat \<times> nat) list" where
  "read_ir_data history_length sampleType channelType irsize irTotal data =
     (if channelType = CHANTYPE_LEFTONLY then
        (case do { (cs, d1) \<leftarrow> read_n (irsize * irTotal) (left_only (read_sample sampleType) 0) data;
                   (ds, d2) \<leftarrow> read_n irTotal (left_only GetLE_ALubyte 0) d1;
                   Some (cs, ds) } of
           None \<Rightarrow> Inl ReadFailed
         | Some (cs, ds) \<Rightarrow>
             if list_ex (\<lambda>d. MAX_HRIR_DELAY history_length < fst d) ds then Inl Unsupported
             else Inr (cs, map (\<lambda>d. (shift_delay (fst d), snd d)) ds))
      else
        (case do { (cs, d1) \<leftarrow> read_n (irsize * irTotal) (left_right (read_sample sampleType)) data;
                   (ds, d2) \<leftarrow> read_n irTotal (left_right GetLE_ALubyte) d1;
                   Some (cs, ds) } of
           None \<Rightarrow> Inl ReadFailed
         | Some (cs, ds) \<Rightarrow>
             if list_ex (\<lambda>d. MAX_HRIR_DELAY history_length < fst d
                            \<or> MAX_HRIR_DELAY history_length < snd d) ds
             then Inl Unsupported
             else Inr (cs, map (\<lambda>d. (shift_delay (fst d), shift_delay (snd d))) ds)))"

text \<open>
  \<open>std::accumulate\<close> with \<open>copy_azs\<close>: the azimuth counts of each field, taken in the
  order of the fields, each group copied in front of the groups copied before.
\<close>

definition copy_azs :: "nat list \<Rightarrow> nat list \<Rightarrow> nat list" where
  "copy_azs evcounts azcounts =
     snd (fold (\<lambda>num_evs (ebase, out).
                  (ebase + num_evs, take num_evs (drop ebase azcounts) @ out))
            evcounts (0, []))"

text \<open>
  \<open>std::accumulate\<close> with \<open>copy_irs\<close>, for a vector with \<open>stride\<close> elements per IR
  (\<open>irSize\<close> for the coefficients, 1 for the delays).
\<close>

definition copy_irs :: "nat \<Rightarrow> nat list \<Rightarrow> nat list \<Rightarrow> 'a list \<Rightarrow> 'a list" where
  "copy_irs stride evcounts azcounts irs =
     snd (fold (\<lambda>num_evs (ebase, out).
                  (let abase = sum_list (take ebase azcounts);
                       num_azs = sum_list (take num_evs (drop ebase azcounts))
                   in (ebase + num_evs,
                       take (num_azs * stride) (drop (abase * stride) irs) @ out)))
            evcounts (0, []))"

text \<open>The tables of a data set as the loader holds them before it builds the store.\<close>

record field_tables =
  ft_distance :: "nat list"
  ft_evCount :: "nat list"
  ft_azCount :: "nat list"
  ft_evOffset :: "nat list"
  ft_coeffs :: "float2 list"
  ft_delays :: "(nat \<times> nat) list"

text \<open>
  The block \<open>if(fdCount > 1)\<close>: the fields in reverse order. \<open>copy_irs\<close> reads the IRs up
  to the sum of all azimuth counts, which must not pass the \<open>irTotal\<close> IRs the vectors
  hold.
\<close>

definition reverse_fields :: "nat \<Rightarrow> nat \<Rightarrow> field_tables \<Rightarrow> load_error + field_tables" where
  "reverse_fields irsize irTotal t =
     (if sum_list (ft_azCount t) \<le> irTotal then
        Inr \<lparr> ft_distance = rev (ft_distance t),
              ft_evCount = rev (ft_evCount t),
              ft_azCount = copy_azs (ft_evCount t) (ft_azCount t),
              ft_evOffset = running_offsets 0 (copy_azs (ft_evCount t) (ft_azCount t)),
              ft_coeffs = copy_irs irsize (ft_evCount t) (ft_azCount t) (ft_coeffs t),
              ft_delays = copy_irs 1 (ft_evCount t) (ft_azCount t) (ft_delays t) \<rparr>
      else Inl MemoryFault)"

text \<open>
  The tables \<open>LoadHrtf02\<close> hands to \<open>CreateHrtfStore\<close>, from the header fields and the
  data after the header: the field loop, the IR offsets, the IR data, the mirroring of a
  left-only set and the reversal of the fields.
\<close>

definition load_tables02 :: "nat \<Rightarrow> nat \<Rightarrow> nat \<Rightarrow> nat \<Rightarrow> nat \<Rightarrow> istream
    \<Rightarrow> load_error + nat \<times> field_tables" where
  "load_tables02 history_length sampleType channelType irsize fdcount data =
     (case read_fields fdcount [] [] [] data of
        Inl e \<Rightarrow> Inl e
      | Inr ((distances, evcounts, azcounts), d1) \<Rightarrow>
          (let evOffset = running_offsets 0 azcounts;
               irTotal = (last evOffset + last azcounts) mod 65536
           in case read_ir_data history_length sampleType channelType irsize irTotal d1 of
                Inl e \<Rightarrow> Inl e
              | Inr irs \<Rightarrow>
                  (case (if channelType = CHANTYPE_LEFTONLY
                         then mirror_left_to_right irsize irTotal evOffset azcounts irs
                         else Inr irs) of
                     Inl e \<Rightarrow> Inl e
                   | Inr (cs, ds) \<Rightarrow>
                       (case (if 1 < fdcount
                              then reverse_fields irsize irTotal
                                     \<lparr> ft_distance = distances, ft_evCount = evcounts,
                                       ft_azCount = azcounts, ft_evOffset = evOffset,
                                       ft_coeffs = cs, ft_delays = ds \<rparr>
                              else Inr \<lparr> ft_distance = distances, ft_evCount = evcounts,
                                         ft_azCount = azcounts, ft_evOffset = evOffset,
                                         ft_coeffs = cs, ft_delays = ds \<rparr>) of
                          Inl e \<Rightarrow> Inl e
                        | Inr t \<Rightarrow> Inr (irTotal, t)))))"

definition LoadHrtf02 :: "nat \<Rightarrow> nat \<Rightarrow> bool \<Rightarrow> istream \<Rightarrow> load_error + HrtfStore" where
  "LoadHrtf02 HRIR_LENGTH history_length alloc_ok data =
     (case do { (rate, d1) \<leftarrow> GetLE_ALuint data;
                (sampleType, d2) \<leftarrow> GetLE_ALubyte d1;
                (channelType, d3) \<leftarrow> GetLE_ALubyte d2;
                (irsize, d4) \<leftarrow> GetLE_ALubyte d3;
                (fdcount, d5) \<leftarrow> GetLE_ALubyte d4;
                Some (rate, sampleType, channelType, irsize, fdcount, d5) } of
        None \<Rightarrow> Inl ReadFailed
      | Some (rate, sampleType, channelType, irsize, fdcount, d5) \<Rightarrow>
          if sampleType > SAMPLETYPE_S24 \<or> channelType > CHANTYPE_LEFTRIGHT
             \<or> bad_ir_size irsize \<or> fdcount < 1 \<or> fdcount > MAX_FD_COUNT
          then Inl Unsupported
          else
            (case load_tables02 history_length sampleType channelType irsize fdcount d5 of
               Inl e \<Rightarrow> Inl e
             | Inr (irTotal, t) \<Rightarrow>
                 CreateHrtfStore HRIR_LENGTH alloc_ok rate irsize fdcount (ft_evCount t)
                   (ft_distance t) (ft_azCount t) (ft_evOffset t) irTotal (ft_coeffs t)
                   (ft_delays t)))"

subsection \<open>Loading through the cache\<close>

text \<open>
  How \<open>GetLoadedHrtf\<close> can end without a store. The first five are its own null returns,
  \<open>LoadFailed\<close> wraps what ended the loader, and \<open>DivisionByZero\<close> is the division by
  the file's sample rate when that rate is 0, which the source does not check.
\<close>

datatype hrtf_error =
    NotEnumerated
  | ResourceMissing
  | OpenFailed
  | DataTooShort
  | InvalidHeader
  | LoadFailed load_error
  | DivisionByZero

text \<open>
  What \<open>GetLoadedHrtf\<close> takes from outside this file: the two constants of the header,
  whether allocating a store succeeds, the polyphase resampler (source rate, target rate
  and input samples to output samples), the files that can be opened with their bytes, the
  embedded data set (empty when none is embedded), and the \<open>hrtf-size\<close> option.
\<close>

record environment =
  HRIR_LENGTH :: nat
  HRTF_HISTORY_LENGTH :: nat
  alloc_ok :: bool
  resample :: "nat \<Rightarrow> nat \<Rightarrow> real list \<Rightarrow> real list"
  open_file :: "string \<Rightarrow> istream option"
  hrtf_default :: istream
  hrtf_size :: "nat option"

definition GetResource :: "environment \<Rightarrow> int \<Rightarrow> istream" where
  "GetResource env name =
     (if name = int IDR_DEFAULT_HRTF_MHR then hrtf_default env else [])"

definition magicMarker00 :: "8 word list" where
  "magicMarker00 = map of_char ''MinPHR00''"

definition magicMarker01 :: "8 word list" where
  "magicMarker01 = map of_char ''MinPHR01''"

definition magicMarker02 :: "8 word list" where
  "magicMarker02 = map of_char ''MinPHR02''"

definition is_digit :: "char \<Rightarrow> bool" where
  "is_digit c = ((48 :: nat) \<le> of_char c \<and> (of_char c :: nat) \<le> 57)"

text \<open>The value an \<open>ALint\<close> holds: the low 32 bits, read as a signed number.\<close>

definition to_ALint :: "int \<Rightarrow> int" where
  "to_ALint v = (v + 2147483648) mod 4294967296 - 2147483648"

text \<open>
  \<open>sscanf(fname, "!%d%c", &residx, &ch) == 2 && ch == '_'\<close>: an exclamation mark, then
  for \<open>%d\<close> optional white space, an optional sign and at least one digit, then the
  character \<open>_\<close>. The result is \<open>residx\<close>, an \<open>ALint\<close>: a number that does not fit is
  stored with its low 32 bits.
\<close>

definition resource_index :: "string \<Rightarrow> int option" where
  "resource_index fname =
     (case fname of
        [] \<Rightarrow> None
      | c # rest \<Rightarrow>
          if c \<noteq> CHR ''!'' then None
          else
            (let r1 = dropWhile isspace rest;
                 negative = (r1 \<noteq> [] \<and> hd r1 = CHR ''-'');
                 r2 = (if r1 \<noteq> [] \<and> (hd r1 = CHR ''-'' \<or> hd r1 = CHR ''+'') then tl r1 else r1);
                 ds = takeWhile is_digit r2;
                 r3 = dropWhile is_digit r2;
                 v = foldl (\<lambda>acc d. acc * 10 + (of_char d - 48)) (0 :: int) ds
             in if ds = [] \<or> r3 = [] \<or> hd r3 \<noteq> CHR ''_'' then None
                else Some (to_ALint (if negative then - v else v))))"

text \<open>\<open>operator<\<close> of \<open>std::string\<close>: lexicographic on the character codes.\<close>

fun string_less :: "string \<Rightarrow> string \<Rightarrow> bool" where
  "string_less [] [] = False"
| "string_less [] (y # ys) = True"
| "string_less (x # xs) [] = False"
| "string_less (x # xs) (y # ys) =
     ((of_char x :: nat) < of_char y \<or> (x = y \<and> string_less xs ys))"

text \<open>
  \<open>std::lower_bound\<close> on the cache, which is kept ordered by file name: the index of the
  first slot whose name is not less than \<open>fname\<close>.
\<close>

definition lower_bound :: "LoadedHrtf list \<Rightarrow> string \<Rightarrow> nat" where
  "lower_bound LoadedHrtfs fname =
     length (takeWhile (\<lambda>hrtf. string_less (LoadedHrtf.mFilename hrtf) fname) LoadedHrtfs)"

text \<open>
  The loop \<open>while(handle != LoadedHrtfs.end() && handle->mFilename == fname)\<close> over the
  slots from \<open>handle\<close> on. The result tells whether a store of the wanted rate was found,
  and the index \<open>handle\<close> ends at.
\<close>

fun cache_scan :: "string \<Rightarrow> nat \<Rightarrow> LoadedHrtf list \<Rightarrow> nat \<Rightarrow> bool \<times> nat" where
  "cache_scan fname devrate [] handle = (False, handle)"
| "cache_scan fname devrate (slot # slots) handle =
     (if LoadedHrtf.mFilename slot = fname then
        (case mEntry slot of
           None \<Rightarrow> cache_scan fname devrate slots (handle + 1)
         | Some hrtf \<Rightarrow>
             if sampleRate hrtf = devrate then (True, handle)
             else cache_scan fname devrate slots (handle + 1))
      else (False, handle))"

text \<open>
  Opening the stream for a file name and reading the data set behind it: the part of
  \<open>GetLoadedHrtf\<close> from \<open>sscanf\<close> to the test \<open>if(!hrtf)\<close>.
\<close>

definition open_stream :: "environment \<Rightarrow> string \<Rightarrow> hrtf_error + istream" where
  "open_stream env fname =
     (case resource_index fname of
        Some residx \<Rightarrow>
          if GetResource env residx = [] then Inl ResourceMissing
          else Inr (GetResource env residx)
      | None \<Rightarrow>
          (case open_file env fname of
             None \<Rightarrow> Inl OpenFailed
           | Some data \<Rightarrow> Inr data))"

definition read_data_set :: "environment \<Rightarrow> istream \<Rightarrow> hrtf_error + HrtfStore" where
  "read_data_set env stream =
     (if length stream < 8 then Inl DataTooShort
      else
        (case (if take 8 stream = magicMarker02
               then Inr (LoadHrtf02 (HRIR_LENGTH env) (HRTF_HISTORY_LENGTH env) (alloc_ok env)
                           (drop 8 stream))
               else if take 8 stream = magicMarker01
               then Inr (LoadHrtf01 (HRIR_LENGTH env) (HRTF_HISTORY_LENGTH env) (alloc_ok env)
                           (drop 8 stream))
               else if take 8 stream = magicMarker00
               then Inr (LoadHrtf00 (HRIR_LENGTH env) (HRTF_HISTORY_LENGTH env) (alloc_ok env)
                           (drop 8 stream))
               else Inl InvalidHeader) of
           Inl e \<Rightarrow> Inl e
         | Inr (Inl e) \<Rightarrow> Inl (LoadFailed e)
         | Inr (Inr hrtf) \<Rightarrow> Inr hrtf))"

text \<open>
  The new value of one stored delay: \<open>minu64\<close> of the bound and the scaled delay, in
  64-bit unsigned arithmetic, cast to \<open>ALubyte\<close>.
\<close>

definition rescale_delay :: "nat \<Rightarrow> nat \<Rightarrow> nat \<Rightarrow> nat \<Rightarrow> nat" where
  "rescale_delay history_length srate devrate delay =
     min ((MAX_HRIR_DELAY history_length * HRIR_DELAY_FRACONE) mod 2 ^ 64)
         (((delay * devrate) mod 2 ^ 64 + srate div 2) mod 2 ^ 64 div srate)
     mod 256"

text \<open>The new \<open>irSize\<close>, the arithmetic again in 64 bits and the result an \<open>ALuint\<close>.\<close>

definition rescale_irSize :: "nat \<Rightarrow> nat \<Rightarrow> nat \<Rightarrow> nat \<Rightarrow> nat" where
  "rescale_irSize hrir_length srate devrate irsize =
     (let newIrSize = (((irsize * devrate) mod 2 ^ 64 + srate) mod 2 ^ 64 + 2 ^ 64 - 1)
                         mod 2 ^ 64 div srate;
          newIrSize' = (min hrir_length newIrSize + (MOD_IR_SIZE - 1)) mod 2 ^ 64
      in (newIrSize' - newIrSize' mod MOD_IR_SIZE) mod 2 ^ 32)"

text \<open>One IR through the resampler, the left channel and then the right.\<close>

definition resample_ir :: "(real list \<Rightarrow> real list) \<Rightarrow> float2 list \<Rightarrow> float2 list" where
  "resample_ir process ir =
     map (\<lambda>k. (process (map fst ir) ! k, process (map snd ir) ! k)) [0..<length ir]"

text \<open>
  The block \<open>if(hrtf->sampleRate != devrate)\<close>. The IR count is taken from the last
  elevation of the table; the first that many rows and delay pairs are rewritten.
\<close>

definition store_irCount :: "HrtfStore \<Rightarrow> nat" where
  "store_irCount hrtf =
     (let lastEv = sum_list (map evCount (take (fdCount hrtf) (field hrtf))) - 1
      in irOffset (elev hrtf ! lastEv) + azCount (elev hrtf ! lastEv))"

definition resample_store :: "environment \<Rightarrow> nat \<Rightarrow> HrtfStore \<Rightarrow> HrtfStore" where
  "resample_store env devrate hrtf =
     (let irCount = store_irCount hrtf;
          srate = sampleRate hrtf
      in hrtf \<lparr>
           coeffs := map (\<lambda>i. if i < irCount
                               then resample_ir (resample env srate devrate) (coeffs hrtf ! i)
                               else coeffs hrtf ! i) [0..<length (coeffs hrtf)],
           delays := map (\<lambda>i. if i < irCount
                               then (rescale_delay (HRTF_HISTORY_LENGTH env) srate devrate
                                       (fst (delays hrtf ! i)),
                                     rescale_delay (HRTF_HISTORY_LENGTH env) srate devrate
                                       (snd (delays hrtf ! i)))
                               else delays hrtf ! i) [0..<length (delays hrtf)],
           irSize := rescale_irSize (HRIR_LENGTH env) srate devrate (irSize hrtf),
           sampleRate := devrate \<rparr>)"

text \<open>The block for the \<open>hrtf-size\<close> option.\<close>

definition apply_hrtf_size :: "nat option \<Rightarrow> HrtfStore \<Rightarrow> HrtfStore" where
  "apply_hrtf_size hrtfsizeopt hrtf =
     (case hrtfsizeopt of
        None \<Rightarrow> hrtf
      | Some opt \<Rightarrow>
          if 0 < opt \<and> opt < irSize hrtf
          then hrtf \<lparr> irSize := max opt MIN_IR_SIZE - max opt MIN_IR_SIZE mod MOD_IR_SIZE \<rparr>
          else hrtf)"

text \<open>
  What \<open>GetLoadedHrtf\<close> does to a store it has just read, before it puts it in the cache.
\<close>

definition condition_store :: "environment \<Rightarrow> nat \<Rightarrow> HrtfStore \<Rightarrow> hrtf_error + HrtfStore" where
  "condition_store env devrate hrtf =
     (if sampleRate hrtf \<noteq> devrate then
        (if sampleRate hrtf = 0 then Inl DivisionByZero
         else Inr (apply_hrtf_size (hrtf_size env) (resample_store env devrate hrtf)))
      else Inr (apply_hrtf_size (hrtf_size env) hrtf))"

text \<open>
  \<open>GetLoadedHrtf\<close>. The state is the cache; the list of enumerated entries is only read.
  The result is the index of the slot whose store is returned, or what ended the call,
  and the cache afterwards.
\<close>

definition GetLoadedHrtf :: "environment \<Rightarrow> HrtfEntry list \<Rightarrow> string \<Rightarrow> nat
    \<Rightarrow> LoadedHrtf list \<Rightarrow> (hrtf_error + nat) \<times> LoadedHrtf list" where
  "GetLoadedHrtf env EnumeratedHrtfs name devrate LoadedHrtfs =
     (case find (\<lambda>entry. mDispName entry = name) EnumeratedHrtfs of
        None \<Rightarrow> (Inl NotEnumerated, LoadedHrtfs)
      | Some entry \<Rightarrow>
          (let fname = HrtfEntry.mFilename entry;
               first = lower_bound LoadedHrtfs fname;
               (hit, handle) = cache_scan fname devrate (drop first LoadedHrtfs) first
           in if hit then
                (case IncRef handle LoadedHrtfs of
                   Some cache \<Rightarrow> (Inr handle, cache)
                 | None \<Rightarrow> (Inr handle, LoadedHrtfs))
              else
                (case open_stream env fname of
                   Inl e \<Rightarrow> (Inl e, LoadedHrtfs)
                 | Inr stream \<Rightarrow>
                     (case read_data_set env stream of
                        Inl e \<Rightarrow> (Inl e, LoadedHrtfs)
                      | Inr hrtf \<Rightarrow>
                          (case condition_store env devrate hrtf of
                             Inl e \<Rightarrow> (Inl e, LoadedHrtfs)
                           | Inr hrtf' \<Rightarrow>
                               (Inr handle,
                                take handle LoadedHrtfs
                                @ [\<lparr> LoadedHrtf.mFilename = fname, mEntry = Some hrtf' \<rparr>]
                                @ drop handle LoadedHrtfs))))))"

subsection \<open>Failed loads leave the cache alone\<close>

lemma magicMarker_distinct:
  "magicMarker02 \<noteq> magicMarker01" "magicMarker02 \<noteq> magicMarker00"
  "magicMarker01 \<noteq> magicMarker00"
  by (simp_all add: magicMarker00_def magicMarker01_def magicMarker02_def)

text \<open>
  C8. Take a call of \<open>GetLoadedHrtf\<close> whose name is enumerated and whose cache lookup
  misses. If the embedded resource is absent, or the file cannot be opened, or the data
  is shorter than the 8 bytes of the magic, or the magic is none of the three known, or
  the loader chosen by the magic fails, then the call returns no store (the model's
  \<open>Inl\<close>, with what ended the call) and the cache is the one the call was given.
\<close>

theorem GetLoadedHrtf_failure_keeps_cache:
  assumes found: "find (\<lambda>entry. mDispName entry = name) EnumeratedHrtfs = Some entry"
    and fname: "fname = HrtfEntry.mFilename entry"
    and miss: "cache_scan fname devrate (drop (lower_bound LoadedHrtfs fname) LoadedHrtfs)
                 (lower_bound LoadedHrtfs fname) = (False, handle)"
  shows "(\<forall>residx. resource_index fname = Some residx \<and> GetResource env residx = []
            \<longrightarrow> GetLoadedHrtf env EnumeratedHrtfs name devrate LoadedHrtfs
                = (Inl ResourceMissing, LoadedHrtfs))
       \<and> (resource_index fname = None \<and> open_file env fname = None
            \<longrightarrow> GetLoadedHrtf env EnumeratedHrtfs name devrate LoadedHrtfs
                = (Inl OpenFailed, LoadedHrtfs))
       \<and> (\<forall>stream. open_stream env fname = Inr stream \<and> length stream < 8
            \<longrightarrow> GetLoadedHrtf env EnumeratedHrtfs name devrate LoadedHrtfs
                = (Inl DataTooShort, LoadedHrtfs))
       \<and> (\<forall>stream. open_stream env fname = Inr stream \<and> 8 \<le> length stream
              \<and> take 8 stream \<noteq> magicMarker02 \<and> take 8 stream \<noteq> magicMarker01
              \<and> take 8 stream \<noteq> magicMarker00
            \<longrightarrow> GetLoadedHrtf env EnumeratedHrtfs name devrate LoadedHrtfs
                = (Inl InvalidHeader, LoadedHrtfs))
       \<and> (\<forall>stream e. open_stream env fname = Inr stream \<and> 8 \<le> length stream
              \<and> (take 8 stream = magicMarker02
                    \<and> LoadHrtf02 (HRIR_LENGTH env) (HRTF_HISTORY_LENGTH env) (alloc_ok env)
                          (drop 8 stream) = Inl e
                  \<or> take 8 stream = magicMarker01
                    \<and> LoadHrtf01 (HRIR_LENGTH env) (HRTF_HISTORY_LENGTH env) (alloc_ok env)
                          (drop 8 stream) = Inl e
                  \<or> take 8 stream = magicMarker00
                    \<and> LoadHrtf00 (HRIR_LENGTH env) (HRTF_HISTORY_LENGTH env) (alloc_ok env)
                          (drop 8 stream) = Inl e)
            \<longrightarrow> GetLoadedHrtf env EnumeratedHrtfs name devrate LoadedHrtfs
                = (Inl (LoadFailed e), LoadedHrtfs))"
proof -
  have call: "GetLoadedHrtf env EnumeratedHrtfs name devrate LoadedHrtfs =
      (case open_stream env fname of
         Inl e \<Rightarrow> (Inl e, LoadedHrtfs)
       | Inr stream \<Rightarrow>
           (case read_data_set env stream of
              Inl e \<Rightarrow> (Inl e, LoadedHrtfs)
            | Inr hrtf \<Rightarrow>
                (case condition_store env devrate hrtf of
                   Inl e \<Rightarrow> (Inl e, LoadedHrtfs)
                 | Inr hrtf' \<Rightarrow>
                     (Inr handle,
                      take handle LoadedHrtfs
                      @ [\<lparr> LoadedHrtf.mFilename = fname, mEntry = Some hrtf' \<rparr>]
                      @ drop handle LoadedHrtfs))))"
    using found miss unfolding fname by (simp add: GetLoadedHrtf_def Let_def)
  have 1: "GetLoadedHrtf env EnumeratedHrtfs name devrate LoadedHrtfs
      = (Inl ResourceMissing, LoadedHrtfs)"
    if "resource_index fname = Some residx" and "GetResource env residx = []" for residx
    using that by (simp add: call open_stream_def)
  have 2: "GetLoadedHrtf env EnumeratedHrtfs name devrate LoadedHrtfs
      = (Inl OpenFailed, LoadedHrtfs)"
    if "resource_index fname = None" and "open_file env fname = None"
    using that by (simp add: call open_stream_def)
  have 3: "GetLoadedHrtf env EnumeratedHrtfs name devrate LoadedHrtfs
      = (Inl DataTooShort, LoadedHrtfs)"
    if "open_stream env fname = Inr stream" and "length stream < 8" for stream
    using that by (simp add: call read_data_set_def)
  have 4: "GetLoadedHrtf env EnumeratedHrtfs name devrate LoadedHrtfs
      = (Inl InvalidHeader, LoadedHrtfs)"
    if "open_stream env fname = Inr stream" and "8 \<le> length stream"
      and "take 8 stream \<noteq> magicMarker02" and "take 8 stream \<noteq> magicMarker01"
      and "take 8 stream \<noteq> magicMarker00" for stream
    using that by (simp add: call read_data_set_def)
  have 5: "GetLoadedHrtf env EnumeratedHrtfs name devrate LoadedHrtfs
      = (Inl (LoadFailed e), LoadedHrtfs)"
    if "open_stream env fname = Inr stream" and "8 \<le> length stream"
      and "take 8 stream = magicMarker02
             \<and> LoadHrtf02 (HRIR_LENGTH env) (HRTF_HISTORY_LENGTH env) (alloc_ok env)
                  (drop 8 stream) = Inl e
           \<or> take 8 stream = magicMarker01
             \<and> LoadHrtf01 (HRIR_LENGTH env) (HRTF_HISTORY_LENGTH env) (alloc_ok env)
                  (drop 8 stream) = Inl e
           \<or> take 8 stream = magicMarker00
             \<and> LoadHrtf00 (HRIR_LENGTH env) (HRTF_HISTORY_LENGTH env) (alloc_ok env)
                  (drop 8 stream) = Inl e" for stream e
    using that magicMarker_distinct by (auto simp: call read_data_set_def)
  show ?thesis
    using 1 2 3 4 5 by blast
qed

text \<open>
  An environment with no embedded data set and three files: one shorter than the magic,
  one with an unknown magic, and one of format 1 that ends inside its header. Any other
  file cannot be opened.
\<close>

definition failing_environment :: environment where
  "failing_environment = \<lparr> HRIR_LENGTH = 512, HRTF_HISTORY_LENGTH = 64, alloc_ok = True,
     resample = (\<lambda>srcrate dstrate samples. samples),
     open_file = (\<lambda>fname.
       if fname = ''short.mhr'' then Some (map of_char ''MinPHR'')
       else if fname = ''unknown.mhr'' then Some (map of_char ''MinPHR03'' @ [0x44, 0xAC, 0, 0])
       else if fname = ''cut.mhr'' then Some (map of_char ''MinPHR01'' @ [0x44, 0xAC, 0, 0, 8])
       else None),
     hrtf_default = [], hrtf_size = None \<rparr>"

definition example_entries :: "HrtfEntry list" where
  "example_entries =
     [\<lparr> mDispName = ''near'', mFilename = ''/usr/share/openal/hrtf/near.mhr'' \<rparr>,
      \<lparr> mDispName = ''Built-In HRTF'', mFilename = ''!1_Built-In HRTF'' \<rparr>,
      \<lparr> mDispName = ''short'', mFilename = ''short.mhr'' \<rparr>,
      \<lparr> mDispName = ''unknown'', mFilename = ''unknown.mhr'' \<rparr>,
      \<lparr> mDispName = ''cut'', mFilename = ''cut.mhr'' \<rparr>]"

lemma resource_index_built_in: "resource_index ''!1_Built-In HRTF'' = Some 1"
  by (simp add: resource_index_def is_digit_def isspace_def to_ALint_def Let_def)

lemma resource_index_wraps: "resource_index ''!4294967297_over'' = Some 1"
  by (simp add: resource_index_def is_digit_def isspace_def to_ALint_def Let_def)

lemma resource_index_path:
  "resource_index ''/usr/share/openal/hrtf/near.mhr'' = None"
  "resource_index ''short.mhr'' = None" "resource_index ''unknown.mhr'' = None"
  "resource_index ''cut.mhr'' = None"
  by (simp_all add: resource_index_def)

lemma cache_scan_near:
  "cache_scan ''/usr/share/openal/hrtf/near.mhr'' 44100
     (drop (lower_bound example_cache ''/usr/share/openal/hrtf/near.mhr'') example_cache)
     (lower_bound example_cache ''/usr/share/openal/hrtf/near.mhr'') = (False, 0)"
  by (simp add: lower_bound_def example_cache_def)

lemma cache_scan_built_in:
  "cache_scan ''!1_Built-In HRTF'' 44100
     (drop (lower_bound example_cache ''!1_Built-In HRTF'') example_cache)
     (lower_bound example_cache ''!1_Built-In HRTF'') = (False, 0)"
  by (simp add: lower_bound_def example_cache_def)

lemma cache_scan_short:
  "cache_scan ''short.mhr'' 44100
     (drop (lower_bound example_cache ''short.mhr'') example_cache)
     (lower_bound example_cache ''short.mhr'') = (False, 4)"
  by (simp add: lower_bound_def example_cache_def)

lemma cache_scan_unknown:
  "cache_scan ''unknown.mhr'' 44100
     (drop (lower_bound example_cache ''unknown.mhr'') example_cache)
     (lower_bound example_cache ''unknown.mhr'') = (False, 4)"
  by (simp add: lower_bound_def example_cache_def)

lemma cache_scan_cut:
  "cache_scan ''cut.mhr'' 44100
     (drop (lower_bound example_cache ''cut.mhr'') example_cache)
     (lower_bound example_cache ''cut.mhr'') = (False, 3)"
  by (simp add: lower_bound_def example_cache_def)

lemma open_stream_short:
  "open_stream failing_environment ''short.mhr'' = Inr (map of_char ''MinPHR'')"
  by (simp add: open_stream_def resource_index_path failing_environment_def)

lemma open_stream_unknown:
  "open_stream failing_environment ''unknown.mhr''
   = Inr (map of_char ''MinPHR03'' @ [0x44, 0xAC, 0, 0])"
  by (simp add: open_stream_def resource_index_path failing_environment_def)

lemma open_stream_cut:
  "open_stream failing_environment ''cut.mhr''
   = Inr (map of_char ''MinPHR01'' @ [0x44, 0xAC, 0, 0, 8])"
  by (simp add: open_stream_def resource_index_path failing_environment_def)

lemma LoadHrtf01_cut:
  "LoadHrtf01 (HRIR_LENGTH failing_environment) (HRTF_HISTORY_LENGTH failing_environment)
     (alloc_ok failing_environment) (drop 8 (map of_char ''MinPHR01'' @ [0x44, 0xAC, 0, 0, 8]))
   = Inl ReadFailed"
  by (simp add: LoadHrtf01_def GetLE_ALuint_def GetLE_ALubyte_def stream_get_def)

theorem GetLoadedHrtf_failure_keeps_cache_witness:
  "GetLoadedHrtf failing_environment example_entries ''Built-In HRTF'' 44100 example_cache
     = (Inl ResourceMissing, example_cache)
   \<and> GetLoadedHrtf failing_environment example_entries ''near'' 44100 example_cache
     = (Inl OpenFailed, example_cache)
   \<and> GetLoadedHrtf failing_environment example_entries ''short'' 44100 example_cache
     = (Inl DataTooShort, example_cache)
   \<and> GetLoadedHrtf failing_environment example_entries ''unknown'' 44100 example_cache
     = (Inl InvalidHeader, example_cache)
   \<and> GetLoadedHrtf failing_environment example_entries ''cut'' 44100 example_cache
     = (Inl (LoadFailed ReadFailed), example_cache)"
proof (intro conjI)
  have f: "find (\<lambda>entry. mDispName entry = ''Built-In HRTF'') example_entries
      = Some \<lparr> mDispName = ''Built-In HRTF'', mFilename = ''!1_Built-In HRTF'' \<rparr>"
    by (simp add: example_entries_def)
  have "GetResource failing_environment 1 = []"
    by (simp add: GetResource_def failing_environment_def)
  with GetLoadedHrtf_failure_keeps_cache [OF f _ cache_scan_built_in, of failing_environment]
    resource_index_built_in
  show "GetLoadedHrtf failing_environment example_entries ''Built-In HRTF'' 44100 example_cache
     = (Inl ResourceMissing, example_cache)"
    by simp
next
  have f: "find (\<lambda>entry. mDispName entry = ''near'') example_entries
      = Some \<lparr> mDispName = ''near'', mFilename = ''/usr/share/openal/hrtf/near.mhr'' \<rparr>"
    by (simp add: example_entries_def)
  have "open_file failing_environment ''/usr/share/openal/hrtf/near.mhr'' = None"
    by (simp add: failing_environment_def)
  with GetLoadedHrtf_failure_keeps_cache [OF f _ cache_scan_near, of failing_environment]
    resource_index_path(1)
  show "GetLoadedHrtf failing_environment example_entries ''near'' 44100 example_cache
     = (Inl OpenFailed, example_cache)"
    by simp
next
  have f: "find (\<lambda>entry. mDispName entry = ''short'') example_entries
      = Some \<lparr> mDispName = ''short'', mFilename = ''short.mhr'' \<rparr>"
    by (simp add: example_entries_def)
  from GetLoadedHrtf_failure_keeps_cache [OF f _ cache_scan_short, of failing_environment]
    open_stream_short
  show "GetLoadedHrtf failing_environment example_entries ''short'' 44100 example_cache
     = (Inl DataTooShort, example_cache)"
    by simp
next
  have f: "find (\<lambda>entry. mDispName entry = ''unknown'') example_entries
      = Some \<lparr> mDispName = ''unknown'', mFilename = ''unknown.mhr'' \<rparr>"
    by (simp add: example_entries_def)
  have "take 8 (map of_char ''MinPHR03'' @ [0x44, 0xAC, 0, 0 :: 8 word]) \<noteq> magicMarker02"
    "take 8 (map of_char ''MinPHR03'' @ [0x44, 0xAC, 0, 0 :: 8 word]) \<noteq> magicMarker01"
    "take 8 (map of_char ''MinPHR03'' @ [0x44, 0xAC, 0, 0 :: 8 word]) \<noteq> magicMarker00"
    by (simp_all add: magicMarker00_def magicMarker01_def magicMarker02_def)
  with GetLoadedHrtf_failure_keeps_cache [OF f _ cache_scan_unknown, of failing_environment]
    open_stream_unknown
  show "GetLoadedHrtf failing_environment example_entries ''unknown'' 44100 example_cache
     = (Inl InvalidHeader, example_cache)"
    by simp
next
  have f: "find (\<lambda>entry. mDispName entry = ''cut'') example_entries
      = Some \<lparr> mDispName = ''cut'', mFilename = ''cut.mhr'' \<rparr>"
    by (simp add: example_entries_def)
  have "take 8 (map of_char ''MinPHR01'' @ [0x44, 0xAC, 0, 0, 8 :: 8 word]) = magicMarker01"
    by (simp add: magicMarker01_def)
  with GetLoadedHrtf_failure_keeps_cache [OF f _ cache_scan_cut, of failing_environment]
    open_stream_cut LoadHrtf01_cut
  show "GetLoadedHrtf failing_environment example_entries ''cut'' 44100 example_cache
     = (Inl (LoadFailed ReadFailed), example_cache)"
    by simp
qed

subsection \<open>The conditioner against the specification\<close>

text \<open>
  The delay and the IR size the specification asks for after a change of sample rate, in
  its words: the delay rounded to the nearest, clamped to
  \<open>MAX_HRIR_DELAY \<cdot> HRIR_DELAY_FRACONE\<close>; the IR size rounded up, clamped to
  \<open>HRIR_LENGTH\<close> and rounded up to a multiple of \<open>MOD_IR_SIZE\<close>.
\<close>

definition nearest_delay :: "nat \<Rightarrow> nat \<Rightarrow> nat \<Rightarrow> nat \<Rightarrow> nat" where
  "nearest_delay history_length srate devrate delay =
     nat (min (int (MAX_HRIR_DELAY history_length * HRIR_DELAY_FRACONE))
              (round (real delay * real devrate / real srate)))"


lemma round_div_nat:
  assumes "0 < s"
  shows "int ((a + s div 2) div s) = round (real a / real s)"
proof -
  have "real a / real s + 1 / 2 = real (2 * a + s) / real (2 * s)"
    using assms by (simp add: field_simps)
  then have "round (real a / real s) = \<lfloor>real (2 * a + s) / real (2 * s)\<rfloor>"
    by (simp add: round_def)
  also have "\<dots> = int ((2 * a + s) div (2 * s))"
    by (rule floor_divide_of_nat_eq)
  also have "(2 * a + s) div (2 * s) = (2 * a + s) div 2 div s"
    by (simp add: div_mult2_eq)
  also have "(2 * a + s) div 2 = a + s div 2"
    by simp
  finally show ?thesis by simp
qed



lemma rescale_delay_nearest:
  assumes "delay_static_assert history_length"
    and "0 < srate" and "srate < 2 ^ 32" and "devrate < 2 ^ 32" and "delay < 256"
  shows "rescale_delay history_length srate devrate delay
     = nearest_delay history_length srate devrate delay"
proof -
  have "delay * devrate \<le> 255 * 4294967295"
    using assms by (intro mult_le_mono) auto
  then have p: "delay * devrate < 2 ^ 64" by simp
  have "delay * devrate + srate div 2 \<le> 255 * 4294967295 + 4294967295"
    using \<open>delay * devrate \<le> 255 * 4294967295\<close> assms by simp
  then have q: "delay * devrate + srate div 2 < 2 ^ 64" by simp
  have b: "MAX_HRIR_DELAY history_length * HRIR_DELAY_FRACONE < 256"
    using assms by (simp add: delay_static_assert_def)
  then have b64: "MAX_HRIR_DELAY history_length * HRIR_DELAY_FRACONE < 2 ^ 64" by simp
  have "rescale_delay history_length srate devrate delay
      = min (MAX_HRIR_DELAY history_length * HRIR_DELAY_FRACONE)
            ((delay * devrate + srate div 2) div srate) mod 256"
    using p q b64 by (simp add: rescale_delay_def)
  also have "\<dots> = min (MAX_HRIR_DELAY history_length * HRIR_DELAY_FRACONE)
            ((delay * devrate + srate div 2) div srate)"
    using b by simp
  finally have "int (rescale_delay history_length srate devrate delay)
      = min (int (MAX_HRIR_DELAY history_length * HRIR_DELAY_FRACONE))
            (int ((delay * devrate + srate div 2) div srate))"
    by (simp only: of_nat_min)
  also have "int ((delay * devrate + srate div 2) div srate)
      = round (real delay * real devrate / real srate)"
    using round_div_nat [OF \<open>0 < srate\<close>, of "delay * devrate"] by simp
  finally have "nat (int (rescale_delay history_length srate devrate delay))
      = nearest_delay history_length srate devrate delay"
    unfolding nearest_delay_def by (rule arg_cong)
  then show ?thesis by simp
qed


subsection \<open>What the readers return\<close>

lemma GetLE_ALubyte_bound:
  assumes "GetLE_ALubyte data = Some (v, rest)"
  shows "v < 256"
proof -
  obtain ret where "v = nat (ret mod 256)"
    using assms by (auto simp: GetLE_ALubyte_def split: Option.bind_splits)
  then show ?thesis by (simp add: nat_less_iff)
qed

lemma GetLE_ALushort_bound:
  assumes "GetLE_ALushort data = Some (v, rest)"
  shows "v < 65536"
proof -
  obtain ret where "v = nat (ret mod 65536)"
    using assms by (auto simp: GetLE_ALushort_def split: Option.bind_splits)
  then show ?thesis by (simp add: nat_less_iff)
qed

lemma GetLE_ALuint_bound:
  assumes "GetLE_ALuint data = Some (v, rest)"
  shows "v < 2 ^ 32"
proof -
  obtain ret where "v = nat (ret mod 2 ^ 32)"
    using assms by (auto simp: GetLE_ALuint_def split: Option.bind_splits)
  then show ?thesis by (simp add: nat_less_iff)
qed

lemma read_n_length:
  "read_n n rd data = Some (xs, rest) \<Longrightarrow> length xs = n"
  by (induction n arbitrary: data xs) (auto split: option.splits)

lemma read_n_all:
  assumes "\<And>d v d'. rd d = Some (v, d') \<Longrightarrow> P v"
  shows "read_n n rd data = Some (xs, rest) \<Longrightarrow> list_all P xs"
  using assms by (induction n arbitrary: data xs) (auto split: option.splits)

lemma left_only_ubyte_bound:
  assumes "left_only GetLE_ALubyte 0 d = Some (v, d')"
  shows "fst v < 256 \<and> snd v = 0"
  using assms GetLE_ALubyte_bound
  by (auto simp: left_only_def split: Option.bind_splits)

lemma left_right_ubyte_bound:
  assumes "left_right GetLE_ALubyte d = Some (v, d')"
  shows "fst v < 256 \<and> snd v < 256"
  using assms GetLE_ALubyte_bound
  by (auto simp: left_right_def split: Option.bind_splits)

lemma shift_delay_bound: "shift_delay d < 256"
  by (simp add: shift_delay_def)

subsection \<open>A sequence of left-to-right copies\<close>

text \<open>A copy as the pair (source index, target index), and the mirroring as a list of copies.\<close>

definition copy_op :: "nat \<times> nat \<Rightarrow> ('a \<times> 'a) list \<Rightarrow> ('a \<times> 'a) list" where
  "copy_op op = copy_left_to_right (fst op) (snd op)"

lemma copy_op_length [simp]: "length (copy_op op xs) = length xs"
  by (simp add: copy_op_def copy_left_to_right_def)

lemma copy_op_fst [simp]: "map fst (copy_op op xs) = map fst xs"
proof (cases "snd op < length xs")
  case True
  then show ?thesis
    by (simp add: copy_op_def copy_left_to_right_def map_update list_update_same_conv)
next
  case False
  then show ?thesis
    by (simp add: copy_op_def copy_left_to_right_def list_update_beyond)
qed

lemma fold_copy_length [simp]: "length (fold copy_op ops xs) = length xs"
  by (induction ops arbitrary: xs) simp_all

lemma fold_copy_fst [simp]: "map fst (fold copy_op ops xs) = map fst xs"
  by (induction ops arbitrary: xs) simp_all

lemma fold_copy_fst_nth:
  assumes "m < length xs"
  shows "fst (fold copy_op ops xs ! m) = fst (xs ! m)"
proof -
  have "map fst (fold copy_op ops xs) ! m = map fst xs ! m"
    by simp
  moreover have "map fst (fold copy_op ops xs) ! m = fst (fold copy_op ops xs ! m)"
    using assms by (intro nth_map) simp
  moreover have "map fst xs ! m = fst (xs ! m)"
    using assms by (intro nth_map)
  ultimately show ?thesis by simp
qed

lemma fold_copy_frame:
  assumes "m \<notin> snd ` set ops"
  shows "fold copy_op ops xs ! m = xs ! m"
  using assms
  by (induction ops arbitrary: xs) (auto simp: copy_op_def copy_left_to_right_def)

lemma fold_copy_written:
  assumes "distinct (map snd ops)"
    and "\<forall>op \<in> set ops. fst op < length xs \<and> snd op < length xs"
    and "(l, r) \<in> set ops"
  shows "snd (fold copy_op ops xs ! r) = fst (xs ! l)"
  using assms
proof (induction ops arbitrary: xs)
  case Nil
  then show ?case by simp
next
  case (Cons op ops)
  show ?case
  proof (cases "(l, r) \<in> set ops")
    case True
    have "snd (fold copy_op ops (copy_op op xs) ! r) = fst (copy_op op xs ! l)"
      using Cons.prems True by (intro Cons.IH) auto
    also have "fst (copy_op op xs ! l) = map fst (copy_op op xs) ! l"
      using Cons.prems True by (intro nth_map [symmetric]) auto
    also have "\<dots> = fst (xs ! l)"
      using Cons.prems True by auto
    finally show ?thesis by simp
  next
    case False
    then have op: "op = (l, r)" using Cons.prems by auto
    then have "r \<notin> snd ` set ops" using Cons.prems by auto
    then have "fold copy_op ops (copy_op op xs) ! r = copy_op op xs ! r"
      by (rule fold_copy_frame)
    moreover have "copy_op op xs ! r = (fst (xs ! r), fst (xs ! l))"
      using Cons.prems op by (simp add: copy_op_def copy_left_to_right_def)
    ultimately have "snd (fold copy_op ops (copy_op op xs) ! r) = fst (xs ! l)"
      by simp
    then show ?thesis by simp
  qed
qed

lemma fold_copy_all:
  assumes "\<forall>op \<in> set ops. fst op < length xs"
    and "\<forall>x \<in> set xs. P (fst x) \<and> P (snd x)"
  shows "\<forall>x \<in> set (fold copy_op ops xs). P (fst x) \<and> P (snd x)"
  using assms
proof (induction ops arbitrary: xs)
  case Nil
  then show ?case by simp
next
  case (Cons op ops)
  have "\<forall>x \<in> set (copy_op op xs). P (fst x) \<and> P (snd x)"
  proof
    fix x assume "x \<in> set (copy_op op xs)"
    then have "x \<in> insert (fst (xs ! snd op), fst (xs ! fst op)) (set xs)"
      using set_update_subset_insert [of xs "snd op"]
      by (auto simp: copy_op_def copy_left_to_right_def)
    moreover have "xs ! fst op \<in> set xs" using Cons.prems by simp
    moreover have "snd op < length xs \<Longrightarrow> xs ! snd op \<in> set xs" by simp
    moreover have "\<not> snd op < length xs \<Longrightarrow> copy_op op xs = xs"
      by (simp add: copy_op_def copy_left_to_right_def list_update_beyond)
    ultimately show "P (fst x) \<and> P (snd x)"
      using Cons.prems(2) \<open>x \<in> set (copy_op op xs)\<close> by (cases "snd op < length xs") auto
  qed
  moreover have "\<forall>c \<in> set ops. fst c < length (copy_op op xs)"
    using Cons.prems by simp
  ultimately have "\<forall>x \<in> set (fold copy_op ops (copy_op op xs)). P (fst x) \<and> P (snd x)"
    by (intro Cons.IH)
  then show ?case by simp
qed

subsection \<open>The mirroring loops as one sequence of copies\<close>

text \<open>
  The copies of one elevation and of all elevations, for a vector with \<open>stride\<close>
  elements per IR, in the order the loops make them.
\<close>

definition elevation_ops :: "nat \<Rightarrow> nat \<times> nat \<Rightarrow> (nat \<times> nat) list" where
  "elevation_ops stride ev =
     concat (map (\<lambda>a. map (\<lambda>k. ((fst ev + a) * stride + k,
                                 (fst ev + (snd ev - a) mod snd ev) * stride + k))
                       [0..<stride]) [0..<snd ev])"

definition mirror_ops :: "nat \<Rightarrow> (nat \<times> nat) list \<Rightarrow> (nat \<times> nat) list" where
  "mirror_ops stride evs = concat (map (elevation_ops stride) evs)"

lemma fold_copy_append:
  "fold copy_op (ops1 @ ops2) xs = fold copy_op ops2 (fold copy_op ops1 xs)"
  by simp

lemma mirror_ir_fst:
  "fst (mirror_ir irsize l r st)
   = fold copy_op (map (\<lambda>k. (l * irsize + k, r * irsize + k)) [0..<irsize]) (fst st)"
  by (simp add: mirror_ir_def fold_map comp_def copy_op_def)

lemma mirror_ir_snd: "snd (mirror_ir irsize l r st) = copy_op (l, r) (snd st)"
  by (simp add: mirror_ir_def copy_op_def)

lemma mirror_azimuths_fst:
  "fst (fold (\<lambda>a. mirror_ir irsize (f a) (g a)) as st)
   = fold copy_op (concat (map (\<lambda>a. map (\<lambda>k. (f a * irsize + k, g a * irsize + k))
                                       [0..<irsize]) as)) (fst st)"
  by (induction as arbitrary: st) (simp_all add: mirror_ir_fst)

lemma mirror_azimuths_snd:
  "snd (fold (\<lambda>a. mirror_ir irsize (f a) (g a)) as st)
   = fold copy_op (map (\<lambda>a. (f a, g a)) as) (snd st)"
  by (induction as arbitrary: st) (simp_all add: mirror_ir_snd)

lemma elevation_ops_1:
  "elevation_ops 1 ev = map (\<lambda>a. (fst ev + a, fst ev + (snd ev - a) mod snd ev)) [0..<snd ev]"
proof -
  have "[0..<1] = [0]" by simp
  then show ?thesis
    unfolding elevation_ops_def by (simp add: map_concat comp_def)
qed

lemma mirror_elevation_fst:
  "fst (mirror_elevation irsize ev st) = fold copy_op (elevation_ops irsize ev) (fst st)"
  unfolding mirror_elevation_def elevation_ops_def by (rule mirror_azimuths_fst)

lemma mirror_elevation_snd:
  "snd (mirror_elevation irsize ev st) = fold copy_op (elevation_ops 1 ev) (snd st)"
  unfolding mirror_elevation_def elevation_ops_1 by (rule mirror_azimuths_snd)

lemma mirror_fold_fst:
  "fst (fold (mirror_elevation irsize) evs st) = fold copy_op (mirror_ops irsize evs) (fst st)"
  by (induction evs arbitrary: st) (simp_all add: mirror_ops_def mirror_elevation_fst)

lemma mirror_fold_snd:
  "snd (fold (mirror_elevation irsize) evs st) = fold copy_op (mirror_ops 1 evs) (snd st)"
  by (induction evs arbitrary: st) (simp_all add: mirror_ops_def mirror_elevation_snd)

subsection \<open>The targets of the copies\<close>

lemma mirror_index_less: "a < n \<Longrightarrow> (n - a) mod n < (n :: nat)"
  by simp

lemma mirror_index_inj:
  assumes "a < n" and "b < n" and "(n - a) mod n = (n - b) mod n"
  shows "a = (b :: nat)"
proof (cases "a = 0")
  case True
  show ?thesis
  proof (cases "b = 0")
    case True
    with \<open>a = 0\<close> show ?thesis by simp
  next
    case False
    then have "(n - b) mod n = n - b" using assms by simp
    then show ?thesis using assms True False by simp
  qed
next
  case False
  then have a: "(n - a) mod n = n - a" using assms by simp
  show ?thesis
  proof (cases "b = 0")
    case True
    then show ?thesis using assms a False by simp
  next
    case b: False
    then have "(n - b) mod n = n - b" using assms by simp
    then show ?thesis using assms a by simp
  qed
qed

lemma strided_index_less:
  assumes "i < n" and "k < stride"
  shows "i * stride + k < n * (stride :: nat)"
proof -
  have "i * stride + k < Suc i * stride" using assms by simp
  also have "\<dots> \<le> n * stride" using assms by (intro mult_le_mono1) simp
  finally show ?thesis .
qed

lemma strided_index_unique:
  assumes "k < stride" and "k' < stride" and "x * stride + k = x' * stride + k'"
  shows "x = x' \<and> k = (k' :: nat)"
proof -
  have "x = (x * stride + k) div stride"
    using assms(1) by simp
  also have "\<dots> = (x' * stride + k') div stride"
    by (simp only: assms(3))
  also have "\<dots> = x'"
    using assms(2) by simp
  finally have x: "x = x'" .
  with assms(3) have "k = k'" by simp
  with x show ?thesis by blast
qed

lemma concat_map_product:
  "concat (map (\<lambda>a. map (f a) ys) xs) = map (\<lambda>p. f (fst p) (snd p)) (List.product xs ys)"
  by (induction xs) (simp_all add: comp_def)

lemma elevation_ops_product:
  "elevation_ops stride ev
   = map (\<lambda>p. ((fst ev + fst p) * stride + snd p,
               (fst ev + (snd ev - fst p) mod snd ev) * stride + snd p))
       (List.product [0..<snd ev] [0..<stride])"
  unfolding elevation_ops_def by (rule concat_map_product)

lemma elevation_ops_distinct: "distinct (map snd (elevation_ops stride ev))"
proof -
  have "inj_on (\<lambda>p. (fst ev + (snd ev - fst p) mod snd ev) * stride + snd p)
          (set (List.product [0..<snd ev] [0..<stride]))"
  proof (rule inj_onI)
    fix p q
    assume p: "p \<in> set (List.product [0..<snd ev] [0..<stride])"
      and q: "q \<in> set (List.product [0..<snd ev] [0..<stride])"
      and eq: "(fst ev + (snd ev - fst p) mod snd ev) * stride + snd p
             = (fst ev + (snd ev - fst q) mod snd ev) * stride + snd q"
    have "snd p < stride" "snd q < stride" "fst p < snd ev" "fst q < snd ev"
      using p q by auto
    with strided_index_unique [OF \<open>snd p < stride\<close> \<open>snd q < stride\<close> eq]
    have "(snd ev - fst p) mod snd ev = (snd ev - fst q) mod snd ev" and "snd p = snd q"
      by simp_all
    with mirror_index_inj [OF \<open>fst p < snd ev\<close> \<open>fst q < snd ev\<close>]
    show "p = q" by (simp add: prod_eq_iff)
  qed
  then show ?thesis
    by (simp add: elevation_ops_product comp_def distinct_map distinct_product)
qed

lemma elevation_ops_range:
  assumes "op \<in> set (elevation_ops stride ev)"
  shows "fst ev * stride \<le> fst op \<and> fst op < (fst ev + snd ev) * stride
       \<and> fst ev * stride \<le> snd op \<and> snd op < (fst ev + snd ev) * stride"
proof -
  obtain a k where a: "a < snd ev" and k: "k < stride"
    and op: "op = ((fst ev + a) * stride + k, (fst ev + (snd ev - a) mod snd ev) * stride + k)"
    using assms by (auto simp: elevation_ops_def)
  have "(snd ev - a) mod snd ev < snd ev" using a by simp
  then have "fst ev + (snd ev - a) mod snd ev < fst ev + snd ev" by simp
  from strided_index_less [OF this k] strided_index_less [of "fst ev + a" "fst ev + snd ev" k stride]
  show ?thesis using a k op by (simp add: add_mult_distrib)
qed

lemma elevation_ops_member:
  assumes "j < snd ev" and "k < stride"
  shows "((fst ev + j) * stride + k, (fst ev + (snd ev - j) mod snd ev) * stride + k)
       \<in> set (elevation_ops stride ev)"
proof -
  have "(j, k) \<in> set (List.product [0..<snd ev] [0..<stride])"
    using assms by simp
  then have "(\<lambda>p. ((fst ev + fst p) * stride + snd p,
               (fst ev + (snd ev - fst p) mod snd ev) * stride + snd p)) (j, k)
      \<in> (\<lambda>p. ((fst ev + fst p) * stride + snd p,
               (fst ev + (snd ev - fst p) mod snd ev) * stride + snd p))
         ` set (List.product [0..<snd ev] [0..<stride])"
    by (rule imageI)
  then show ?thesis
    unfolding elevation_ops_product set_map by simp
qed

text \<open>
  Elevations that follow each other without overlap: each begins at or after the end of
  the one before, the first at or after \<open>lo\<close>.
\<close>

fun separated :: "nat \<Rightarrow> (nat \<times> nat) list \<Rightarrow> bool" where
  "separated lo [] = True"
| "separated lo (ev # evs) = (lo \<le> fst ev \<and> separated (fst ev + snd ev) evs)"

lemma separated_lower:
  "separated lo evs \<Longrightarrow> ev \<in> set evs \<Longrightarrow> lo \<le> fst ev"
proof (induction evs arbitrary: lo)
  case Nil
  then show ?case by simp
next
  case (Cons e evs)
  show ?case
  proof (cases "ev = e")
    case True
    then show ?thesis using Cons.prems by simp
  next
    case False
    then have "ev \<in> set evs" using Cons.prems by simp
    moreover have "separated (fst e + snd e) evs" using Cons.prems by simp
    ultimately have "fst e + snd e \<le> fst ev" by (rule Cons.IH [rotated])
    then show ?thesis using Cons.prems by simp
  qed
qed

lemma mirror_ops_distinct:
  "separated lo evs \<Longrightarrow> distinct (map snd (mirror_ops stride evs))"
proof (induction evs arbitrary: lo)
  case Nil
  then show ?case by (simp add: mirror_ops_def)
next
  case (Cons e evs)
  have sep: "separated (fst e + snd e) evs" using Cons.prems by simp
  have "snd ` set (elevation_ops stride e) \<inter> snd ` set (mirror_ops stride evs) = {}"
  proof (rule ccontr)
    assume "snd ` set (elevation_ops stride e) \<inter> snd ` set (mirror_ops stride evs) \<noteq> {}"
    then obtain m where m1: "m \<in> snd ` set (elevation_ops stride e)"
      and m2: "m \<in> snd ` set (mirror_ops stride evs)"
      by blast
    from m1 obtain op where op: "op \<in> set (elevation_ops stride e)" and mop: "m = snd op"
      by (rule imageE)
    from m2 obtain op' where "op' \<in> set (mirror_ops stride evs)" and mop': "m = snd op'"
      by (rule imageE)
    then obtain ev where ev: "ev \<in> set evs" and op': "op' \<in> set (elevation_ops stride ev)"
      unfolding mirror_ops_def set_concat set_map by blast
    have eq: "snd op = snd op'" using mop mop' by simp
    have "snd op < (fst e + snd e) * stride"
      using elevation_ops_range [OF op] by simp
    moreover have "fst ev * stride \<le> snd op'"
      using elevation_ops_range [OF op'] by simp
    moreover have "(fst e + snd e) * stride \<le> fst ev * stride"
      using separated_lower [OF sep ev] by (intro mult_le_mono1)
    ultimately show False using eq by simp
  qed
  moreover have "distinct (map snd (mirror_ops stride evs))"
    using sep by (rule Cons.IH)
  moreover have "mirror_ops stride (e # evs) = elevation_ops stride e @ mirror_ops stride evs"
    by (simp add: mirror_ops_def)
  ultimately show ?case
    by (simp add: elevation_ops_distinct)
qed

lemma mirror_ops_bounds:
  assumes "\<forall>ev \<in> set evs. fst ev + snd ev \<le> ircount"
    and "op \<in> set (mirror_ops stride evs)"
  shows "fst op < ircount * stride \<and> snd op < ircount * stride"
proof -
  obtain ev where ev: "ev \<in> set evs" and op: "op \<in> set (elevation_ops stride ev)"
    using assms by (auto simp: mirror_ops_def)
  have le: "(fst ev + snd ev) * stride \<le> ircount * stride"
    using assms ev by (intro mult_le_mono1) simp
  from elevation_ops_range [OF op]
  have "fst op < (fst ev + snd ev) * stride" and "snd op < (fst ev + snd ev) * stride"
    by blast+
  then show ?thesis using le by (blast intro: less_le_trans)
qed

text \<open>
  After the mirroring of non-overlapping elevations inside the vector, the right value
  at the mirrored azimuth is the left value the vector had at the azimuth.
\<close>

lemma mirror_ops_written:
  assumes "separated lo evs"
    and "\<forall>ev \<in> set evs. fst ev + snd ev \<le> ircount"
    and "length xs = ircount * stride"
    and "ev \<in> set evs" and "j < snd ev" and "k < stride"
  shows "snd (fold copy_op (mirror_ops stride evs) xs
              ! ((fst ev + (snd ev - j) mod snd ev) * stride + k))
       = fst (xs ! ((fst ev + j) * stride + k))"
proof (rule fold_copy_written)
  show "distinct (map snd (mirror_ops stride evs))"
    using assms(1) by (rule mirror_ops_distinct)
  show "\<forall>op \<in> set (mirror_ops stride evs). fst op < length xs \<and> snd op < length xs"
    using mirror_ops_bounds [OF assms(2)] assms(3) by simp
  show "((fst ev + j) * stride + k, (fst ev + (snd ev - j) mod snd ev) * stride + k)
      \<in> set (mirror_ops stride evs)"
    using elevation_ops_member [OF assms(5,6)] assms(4) by (auto simp: mirror_ops_def)
qed

subsection \<open>Mirrored tables and mirrored stores\<close>

text \<open>
  A vector with \<open>stride\<close> elements per IR is mirrored for an elevation table when, for
  every elevation and azimuth index \<open>j\<close>, the right values of the IR at
  \<open>evoffset + ((azcount - j) mod azcount)\<close> are the left values of the IR at
  \<open>evoffset + j\<close>.
\<close>

definition mirrored_at :: "nat \<Rightarrow> nat list \<Rightarrow> nat list \<Rightarrow> ('a \<times> 'a) list \<Rightarrow> bool" where
  "mirrored_at stride evOffset azcounts xs =
     (\<forall>e < length azcounts. \<forall>j < azcounts ! e. \<forall>k < stride.
        snd (xs ! ((evOffset ! e + (azcounts ! e - j) mod azcounts ! e) * stride + k))
        = fst (xs ! ((evOffset ! e + j) * stride + k)))"

definition tables_mirrored :: "nat \<Rightarrow> nat list \<Rightarrow> nat list \<Rightarrow> float2 list
    \<Rightarrow> (nat \<times> nat) list \<Rightarrow> bool" where
  "tables_mirrored irsize evOffset azcounts cs ds =
     (mirrored_at irsize evOffset azcounts cs \<and> mirrored_at 1 evOffset azcounts ds)"

text \<open>
  A store is mirrored when, for every elevation of the table and every azimuth index
  \<open>j\<close> below its azimuth count, the right delay and the right coefficients of the IR at
  \<open>irOffset + ((azCount - j) mod azCount)\<close> are the left delay and the left coefficients
  of the IR at \<open>irOffset + j\<close>.
\<close>

definition store_mirrored :: "HrtfStore \<Rightarrow> bool" where
  "store_mirrored h =
     (\<forall>e < length (elev h). \<forall>j < azCount (elev h ! e).
        snd (delays h ! (irOffset (elev h ! e)
                + (azCount (elev h ! e) - j) mod azCount (elev h ! e)))
          = fst (delays h ! (irOffset (elev h ! e) + j))
        \<and> map snd (coeffs h ! (irOffset (elev h ! e)
                + (azCount (elev h ! e) - j) mod azCount (elev h ! e)))
          = map fst (coeffs h ! (irOffset (elev h ! e) + j)))"

lemma mirror_ops_mirrored_at:
  assumes sep: "separated lo (zip evOffset azcounts)"
    and bound: "\<forall>ev \<in> set (zip evOffset azcounts). fst ev + snd ev \<le> ircount"
    and len: "length evOffset = length azcounts"
    and xs: "length xs = ircount * stride"
  shows "mirrored_at stride evOffset azcounts
           (fold copy_op (mirror_ops stride (zip evOffset azcounts)) xs)"
  unfolding mirrored_at_def
proof (intro allI impI)
  fix e j k
  assume e: "e < length azcounts" and j: "j < azcounts ! e" and k: "k < stride"
  define ev where "ev = (evOffset ! e, azcounts ! e)"
  have mem: "ev \<in> set (zip evOffset azcounts)"
    using e len by (auto simp: ev_def set_zip)
  have j': "j < snd ev" using j by (simp add: ev_def)
  have "fst ev + j < ircount" using bound mem j' by fastforce
  then have "(fst ev + j) * stride + k < length xs"
    using k xs by (simp add: strided_index_less)
  then have "fst (fold copy_op (mirror_ops stride (zip evOffset azcounts)) xs
                    ! ((fst ev + j) * stride + k))
      = fst (xs ! ((fst ev + j) * stride + k))"
    by (rule fold_copy_fst_nth)
  moreover have "snd (fold copy_op (mirror_ops stride (zip evOffset azcounts)) xs
                    ! ((fst ev + (snd ev - j) mod snd ev) * stride + k))
      = fst (xs ! ((fst ev + j) * stride + k))"
    using sep bound xs mem j' k by (rule mirror_ops_written)
  ultimately show "snd (fold copy_op (mirror_ops stride (zip evOffset azcounts)) xs
        ! ((evOffset ! e + (azcounts ! e - j) mod azcounts ! e) * stride + k))
      = fst (fold copy_op (mirror_ops stride (zip evOffset azcounts)) xs
        ! ((evOffset ! e + j) * stride + k))"
    by (simp add: ev_def)
qed

lemma mirror_left_to_right_Inr:
  assumes "mirror_left_to_right irsize ircount evOffset azcounts st = Inr st'"
  shows "(\<forall>ev \<in> set (zip evOffset azcounts). fst ev + snd ev \<le> ircount)
       \<and> fst st' = fold copy_op (mirror_ops irsize (zip evOffset azcounts)) (fst st)
       \<and> snd st' = fold copy_op (mirror_ops 1 (zip evOffset azcounts)) (snd st)"
  using assms
  by (auto simp: mirror_left_to_right_def list_all_iff mirror_fold_fst mirror_fold_snd
      split: if_splits)

lemma mirror_left_to_right_mirrored:
  assumes m: "mirror_left_to_right irsize ircount evOffset azcounts (cs, ds) = Inr (cs', ds')"
    and sep: "separated lo (zip evOffset azcounts)"
    and len: "length evOffset = length azcounts"
    and cs: "length cs = ircount * irsize" and ds: "length ds = ircount"
  shows "tables_mirrored irsize evOffset azcounts cs' ds'"
proof -
  from mirror_left_to_right_Inr [OF m]
  have bound: "\<forall>ev \<in> set (zip evOffset azcounts). fst ev + snd ev \<le> ircount"
    and cs': "cs' = fold copy_op (mirror_ops irsize (zip evOffset azcounts)) cs"
    and ds': "ds' = fold copy_op (mirror_ops 1 (zip evOffset azcounts)) ds"
    by simp_all
  have "length ds = ircount * 1" using ds by simp
  from mirror_ops_mirrored_at [OF sep bound len cs] mirror_ops_mirrored_at [OF sep bound len this]
  show ?thesis by (simp add: tables_mirrored_def cs' ds')
qed

lemma mirror_left_to_right_lengths:
  assumes "mirror_left_to_right irsize ircount evOffset azcounts (cs, ds) = Inr (cs', ds')"
  shows "length cs' = length cs \<and> length ds' = length ds
       \<and> map fst cs' = map fst cs \<and> map fst ds' = map fst ds"
  using mirror_left_to_right_Inr [OF assms] by simp

lemma mirror_left_to_right_delay_bound:
  assumes m: "mirror_left_to_right irsize ircount evOffset azcounts (cs, ds) = Inr (cs', ds')"
    and ds: "length ds = ircount"
    and P: "\<forall>d \<in> set ds. P (fst d) \<and> P (snd d)"
  shows "\<forall>d \<in> set ds'. P (fst d) \<and> P (snd d)"
proof -
  from mirror_left_to_right_Inr [OF m]
  have bound: "\<forall>ev \<in> set (zip evOffset azcounts). fst ev + snd ev \<le> ircount"
    and ds': "ds' = fold copy_op (mirror_ops 1 (zip evOffset azcounts)) ds"
    by simp_all
  have "\<forall>op \<in> set (mirror_ops 1 (zip evOffset azcounts)). fst op < length ds"
    using mirror_ops_bounds [OF bound, of _ 1] ds by simp
  from fold_copy_all [OF this P] show ?thesis by (simp add: ds')
qed

lemma CreateHrtfStore_Inr:
  assumes "CreateHrtfStore hrir_length ok rate irsize fdcount evcounts distances azcounts
             iroffsets ircount cs ds = Inr h"
  shows "irsize \<le> hrir_length"
    and "sampleRate h = rate" and "irSize h = irsize" and "fdCount h = fdcount"
    and "field h = map (\<lambda>i. \<lparr> distance = real (distances ! i) / 1000, evCount = evcounts ! i \<rparr>)
                     [0..<fdcount]"
    and "elev h = map (\<lambda>i. \<lparr> azCount = azcounts ! i, irOffset = iroffsets ! i \<rparr>)
                    [0..<sum_list (take fdcount evcounts)]"
    and "coeffs h = map (\<lambda>i. map (\<lambda>j. if j < irsize then cs ! (i * irsize + j) else (0, 0))
                                  [0..<hrir_length]) [0..<ircount]"
    and "delays h = map (\<lambda>i. ds ! i) [0..<ircount]"
  using assms by (auto simp: CreateHrtfStore_def split: if_splits)

lemma CreateHrtfStore_mirrored:
  assumes c: "CreateHrtfStore hrir_length ok rate irsize fdcount evcounts distances azcounts
             iroffsets ircount cs ds = Inr h"
    and t: "tables_mirrored irsize iroffsets azcounts cs ds"
    and n: "sum_list (take fdcount evcounts) = length azcounts"
    and bound: "\<forall>e < length azcounts. iroffsets ! e + azcounts ! e \<le> ircount"
  shows "store_mirrored h"
  unfolding store_mirrored_def
proof (intro allI impI)
  fix e j
  assume e: "e < length (elev h)" and j: "j < azCount (elev h ! e)"
  note h = CreateHrtfStore_Inr [OF c]
  have e': "e < length azcounts" using e h(6) n by simp
  have el: "elev h ! e = \<lparr> azCount = azcounts ! e, irOffset = iroffsets ! e \<rparr>"
    using e' h(6) n by simp
  define az where "az = azcounts ! e"
  define off where "off = iroffsets ! e"
  have j': "j < az" using j el by (simp add: az_def)
  have l: "off + j < ircount"
    using bound e' j' by (auto simp: az_def off_def)
  have "(az - j) mod az < az" using j' by simp
  then have r: "off + (az - j) mod az < ircount"
    using bound e' by (auto simp: az_def off_def)
  have cs: "\<forall>k < irsize. snd (cs ! ((off + (az - j) mod az) * irsize + k))
      = fst (cs ! ((off + j) * irsize + k))"
    using t e' j' by (simp add: tables_mirrored_def mirrored_at_def az_def off_def)
  have ds: "snd (ds ! (off + (az - j) mod az)) = fst (ds ! (off + j))"
    using t e' j' by (simp add: tables_mirrored_def mirrored_at_def az_def off_def)
  have "snd (delays h ! (off + (az - j) mod az)) = fst (delays h ! (off + j))"
    using l r ds by (simp add: h(8))
  moreover have "map snd (coeffs h ! (off + (az - j) mod az)) = map fst (coeffs h ! (off + j))"
    using l r cs by (simp add: h(7))
  ultimately show "snd (delays h ! (irOffset (elev h ! e)
                + (azCount (elev h ! e) - j) mod azCount (elev h ! e)))
          = fst (delays h ! (irOffset (elev h ! e) + j))
        \<and> map snd (coeffs h ! (irOffset (elev h ! e)
                + (azCount (elev h ! e) - j) mod azCount (elev h ! e)))
          = map fst (coeffs h ! (irOffset (elev h ! e) + j))"
    by (simp add: el az_def off_def)
qed

subsection \<open>The elevation tables of the formats 0 and 1\<close>

lemma ALushort_diff_minus:
  assumes "b \<le> a" and "a < 65536"
  shows "ALushort_diff a b = a - b"
proof -
  have "(int a - int b) mod 65536 = int a - int b"
    using assms by (intro mod_pos_pos_trivial) auto
  then show ?thesis by (simp add: ALushort_diff_def)
qed

lemma offsets_to_counts_length [simp]:
  "length (offsets_to_counts ircount offs) = length offs"
  by (induction ircount offs rule: offsets_to_counts.induct) simp_all

lemma offsets_to_counts_separated:
  assumes "increasing_offsets offs" and "offs \<noteq> []" and "\<forall>x \<in> set offs. x < 65536"
  shows "separated (hd offs) (zip offs (offsets_to_counts ircount offs))"
  using assms
proof (induction ircount offs rule: offsets_to_counts.induct)
  case (1 ircount)
  then show ?case by simp
next
  case (2 ircount x)
  then show ?case by simp
next
  case (3 ircount x y ys)
  have "ALushort_diff y x = y - x"
    using "3.prems" by (intro ALushort_diff_minus) simp_all
  moreover have "separated (hd (y # ys)) (zip (y # ys) (offsets_to_counts ircount (y # ys)))"
    using "3.prems" by (intro "3.IH") simp_all
  ultimately show ?case using "3.prems" by simp
qed

lemma offsets_to_counts_Nil [simp]: "offsets_to_counts ircount offs = [] \<longleftrightarrow> offs = []"
  by (induction ircount offs rule: offsets_to_counts.induct) simp_all

lemma offsets_to_counts_last:
  "offs \<noteq> [] \<Longrightarrow> last (offsets_to_counts ircount offs) = ALushort_diff ircount (last offs)"
  by (induction ircount offs rule: offsets_to_counts.induct) simp_all

lemma running_offsets_length [simp]: "length (running_offsets acc azs) = length azs"
  by (induction azs arbitrary: acc) simp_all

lemma running_offsets_separated:
  "acc + sum_list azs < 65536 \<Longrightarrow> separated acc (zip (running_offsets acc azs) azs)"
proof (induction azs arbitrary: acc)
  case Nil
  then show ?case by simp
next
  case (Cons a azs)
  then have "(acc + a) mod 65536 = acc + a" by simp
  moreover have "separated (acc + a) (zip (running_offsets (acc + a) azs) azs)"
    using Cons.prems by (intro Cons.IH) simp
  ultimately show ?case by simp
qed

lemma running_offsets_nth:
  "acc + sum_list azs < 65536 \<Longrightarrow> e < length azs
   \<Longrightarrow> running_offsets acc azs ! e = acc + sum_list (take e azs)"
proof (induction azs arbitrary: acc e)
  case Nil
  then show ?case by simp
next
  case (Cons a azs)
  show ?case
  proof (cases e)
    case 0
    then show ?thesis by simp
  next
    case (Suc e')
    have "(acc + a) mod 65536 = acc + a" using Cons.prems by simp
    moreover have "running_offsets (acc + a) azs ! e' = acc + a + sum_list (take e' azs)"
      using Cons.prems Suc by (intro Cons.IH) simp_all
    ultimately show ?thesis using Suc by simp
  qed
qed

lemma running_offsets_last:
  assumes "sum_list azs < 65536" and "azs \<noteq> []"
  shows "running_offsets 0 azs ! (length azs - 1) + azs ! (length azs - 1) = sum_list azs"
proof -
  have "running_offsets 0 azs ! (length azs - 1) = sum_list (take (length azs - 1) azs)"
    using assms running_offsets_nth [of 0 azs "length azs - 1"] by simp
  moreover have "sum_list (butlast azs @ [last azs]) = sum_list (butlast azs) + last azs"
    by simp
  then have "sum_list azs = sum_list (butlast azs) + last azs"
    using assms by simp
  moreover have "butlast azs = take (length azs - 1) azs"
    by (rule butlast_conv_take)
  moreover have "last azs = azs ! (length azs - 1)"
    using assms(2) by (rule last_conv_nth)
  ultimately show ?thesis by simp
qed

lemma ALushort_fold_sum:
  "acc + sum_list xs < 65536
   \<Longrightarrow> fold (\<lambda>a acc. (acc + a) mod 65536) xs acc = acc + (sum_list xs :: nat)"
proof (induction xs arbitrary: acc)
  case Nil
  then show ?case by simp
next
  case (Cons a xs)
  then have "(acc + a) mod 65536 = acc + a" by simp
  moreover have "fold (\<lambda>a acc. (acc + a) mod 65536) xs (acc + a) = acc + a + sum_list xs"
    using Cons.prems by (intro Cons.IH) simp
  ultimately show ?case by simp
qed

lemma ALushort_sum_sum_list:
  assumes "azs \<noteq> []" and "sum_list azs < 65536"
  shows "ALushort_sum azs = sum_list azs"
proof -
  obtain a rest where azs: "azs = a # rest" using assms by (cases azs) auto
  then show ?thesis
    using assms ALushort_fold_sum [of a rest] by (simp add: ALushort_sum_def)
qed

lemma azcounts_sum_bound:
  assumes "\<not> list_ex bad_az_count azs"
  shows "sum_list azs \<le> 255 * length azs"
  using assms
proof (induction azs)
  case Nil
  then show ?case by simp
next
  case (Cons a azs)
  then have "a \<le> 255" and "sum_list azs \<le> 255 * length azs"
    by (simp_all add: bad_az_count_def MAX_AZ_COUNT_def)
  then show ?case by simp
qed

subsection \<open>Stores as the loaders build them\<close>

text \<open>
  What the conditioner relies on in a store it has just been handed: the rate is an
  \<open>ALuint\<close>, the IR size is within its limit, the two IR tables have as many entries as
  the last elevation says, and every delay is a byte.
\<close>

definition loaded_store_ok :: "HrtfStore \<Rightarrow> bool" where
  "loaded_store_ok h =
     (sampleRate h < 2 ^ 32 \<and> irSize h \<le> MAX_IR_SIZE
      \<and> length (delays h) = store_irCount h \<and> length (coeffs h) = store_irCount h
      \<and> (\<forall>d \<in> set (delays h). fst d < 256 \<and> snd d < 256))"

lemma CreateHrtfStore_ok:
  assumes c: "CreateHrtfStore hrir_length ok rate irsize fdcount evcounts distances azcounts
             iroffsets ircount cs ds = Inr h"
    and rate: "rate < 2 ^ 32" and irsize: "irsize \<le> MAX_IR_SIZE"
    and ds: "length ds = ircount" and bytes: "\<forall>d \<in> set ds. fst d < 256 \<and> snd d < 256"
    and fd: "fdcount \<le> length evcounts"
    and total: "0 < sum_list (take fdcount evcounts)"
    and last: "iroffsets ! (sum_list (take fdcount evcounts) - 1)
               + azcounts ! (sum_list (take fdcount evcounts) - 1) = ircount"
  shows "loaded_store_ok h"
proof -
  note h = CreateHrtfStore_Inr [OF c]
  have "map evCount (take (fdCount h) (field h)) = take fdcount evcounts"
    using fd by (intro nth_equalityI) (simp_all add: h(4,5))
  then have "store_irCount h = ircount"
    using total last by (simp add: store_irCount_def h(6))
  moreover have "delays h = map ((!) ds) [0..<length ds]"
    using ds by (simp add: h(8))
  then have "delays h = ds"
    by (simp only: map_nth)
  ultimately show ?thesis
    using rate irsize bytes ds by (simp add: loaded_store_ok_def h(2,3,7))
qed

lemma load_left_ear_Inr:
  assumes "load_left_ear hrir_length history_length ok rate irsize evcount azcounts evOffset
             ircount data = Inr h"
  obtains cs ds0 d1 d2 cs' ds' where
    "read_n (irsize * ircount) (left_only read_sample16 0) data = Some (cs, d1)"
    and "read_n ircount (left_only GetLE_ALubyte 0) d1 = Some (ds0, d2)"
    and "mirror_left_to_right irsize ircount evOffset azcounts
           (cs, map (\<lambda>d. (shift_delay (fst d), snd d)) ds0) = Inr (cs', ds')"
    and "CreateHrtfStore hrir_length ok rate irsize 1 [evcount] [0] azcounts evOffset ircount
           cs' ds' = Inr h"
  using assms unfolding load_left_ear_def
  by (auto split: option.splits sum.splits if_splits prod.splits Option.bind_splits)

text \<open>
  A store of the formats 0 and 1 is mirrored and fit for the conditioner, when the
  elevations of its table follow each other without overlap and the last one ends at the
  IR count.
\<close>

lemma load_left_ear_store:
  assumes l: "load_left_ear hrir_length history_length ok rate irsize evcount azcounts evOffset
             ircount data = Inr h"
    and sep: "separated lo (zip evOffset azcounts)"
    and len: "length evOffset = length azcounts" and n: "length azcounts = evcount"
    and pos: "0 < evcount"
    and rate: "rate < 2 ^ 32" and irsize: "irsize \<le> MAX_IR_SIZE"
    and last: "evOffset ! (evcount - 1) + azcounts ! (evcount - 1) = ircount"
  shows "store_mirrored h" and "loaded_store_ok h" and "fdCount h = 1"
    and "sampleRate h = rate" and "irSize h = irsize"
proof -
  from l obtain cs ds0 d1 d2 cs' ds' where
    rc: "read_n (irsize * ircount) (left_only read_sample16 0) data = Some (cs, d1)"
    and rd: "read_n ircount (left_only GetLE_ALubyte 0) d1 = Some (ds0, d2)"
    and m: "mirror_left_to_right irsize ircount evOffset azcounts
           (cs, map (\<lambda>d. (shift_delay (fst d), snd d)) ds0) = Inr (cs', ds')"
    and c: "CreateHrtfStore hrir_length ok rate irsize 1 [evcount] [0] azcounts evOffset ircount
           cs' ds' = Inr h"
    by (rule load_left_ear_Inr)
  define ds where "ds = map (\<lambda>d. (shift_delay (fst d), snd d)) ds0"
  have lcs: "length cs = ircount * irsize"
    using read_n_length [OF rc] by (simp add: mult.commute)
  have lds: "length ds = ircount"
    using read_n_length [OF rd] by (simp add: ds_def)
  have "list_all (\<lambda>v. fst v < 256 \<and> snd v = 0) ds0"
    using left_only_ubyte_bound rd by (rule read_n_all)
  then have bytes: "\<forall>d \<in> set ds. fst d < 256 \<and> snd d < 256"
    by (auto simp: ds_def list_all_iff shift_delay_bound)
  have m': "mirror_left_to_right irsize ircount evOffset azcounts (cs, ds) = Inr (cs', ds')"
    using m by (simp add: ds_def)
  have t: "tables_mirrored irsize evOffset azcounts cs' ds'"
    using m' sep len lcs lds by (rule mirror_left_to_right_mirrored)
  have lds': "length ds' = ircount"
    using mirror_left_to_right_lengths [OF m'] lds by simp
  have bytes': "\<forall>d \<in> set ds'. fst d < 256 \<and> snd d < 256"
    using m' lds bytes by (rule mirror_left_to_right_delay_bound)
  have "\<forall>ev \<in> set (zip evOffset azcounts). fst ev + snd ev \<le> ircount"
    using mirror_left_to_right_Inr [OF m'] by simp
  then have bound: "\<forall>e < length azcounts. evOffset ! e + azcounts ! e \<le> ircount"
    using len by (auto simp: set_zip)
  show "store_mirrored h"
    using c t _ bound by (rule CreateHrtfStore_mirrored) (simp add: n)
  show "loaded_store_ok h"
    using c rate irsize lds' bytes' by (rule CreateHrtfStore_ok) (use pos last in simp_all)
  show "fdCount h = 1" "sampleRate h = rate" "irSize h = irsize"
    using CreateHrtfStore_Inr [OF c] by simp_all
qed

lemma LoadHrtf00_Inr:
  assumes "LoadHrtf00 hrir_length history_length ok data = Inr h"
  obtains rate ircount irsize evcount evOffset d1 d2 d3 d4 d5 where
    "GetLE_ALuint data = Some (rate, d1)" and "GetLE_ALushort d1 = Some (ircount, d2)"
    and "GetLE_ALushort d2 = Some (irsize, d3)" and "GetLE_ALubyte d3 = Some (evcount, d4)"
    and "\<not> bad_ir_size irsize" and "\<not> bad_ev_count evcount"
    and "read_n evcount GetLE_ALushort d4 = Some (evOffset, d5)"
    and "increasing_offsets evOffset" and "last evOffset < ircount"
    and "load_left_ear hrir_length history_length ok rate irsize evcount
           (offsets_to_counts ircount evOffset) evOffset ircount d5 = Inr h"
  using assms unfolding LoadHrtf00_def
  by (auto split: option.splits sum.splits if_splits prod.splits Option.bind_splits)

lemma LoadHrtf01_Inr:
  assumes "LoadHrtf01 hrir_length history_length ok data = Inr h"
  obtains rate irsize evcount azcounts d1 d2 d3 d4 where
    "GetLE_ALuint data = Some (rate, d1)"
    and "GetLE_ALubyte d1 = Some (irsize, d2)" and "GetLE_ALubyte d2 = Some (evcount, d3)"
    and "\<not> bad_ir_size irsize" and "\<not> bad_ev_count evcount"
    and "read_n evcount GetLE_ALubyte d3 = Some (azcounts, d4)"
    and "\<not> list_ex bad_az_count azcounts"
    and "load_left_ear hrir_length history_length ok rate irsize evcount azcounts
           (running_offsets 0 azcounts) (ALushort_sum azcounts) d4 = Inr h"
  using assms unfolding LoadHrtf01_def
  by (auto split: option.splits sum.splits if_splits prod.splits Option.bind_splits)

lemma LoadHrtf00_store:
  assumes l: "LoadHrtf00 hrir_length history_length ok data = Inr h"
  shows "store_mirrored h" and "loaded_store_ok h" and "fdCount h = 1"
proof -
  from l obtain rate ircount irsize evcount evOffset d1 d2 d3 d4 d5 where
    rate: "GetLE_ALuint data = Some (rate, d1)" and irc: "GetLE_ALushort d1 = Some (ircount, d2)"
    and "GetLE_ALushort d2 = Some (irsize, d3)" and "GetLE_ALubyte d3 = Some (evcount, d4)"
    and irs: "\<not> bad_ir_size irsize" and evc: "\<not> bad_ev_count evcount"
    and offs: "read_n evcount GetLE_ALushort d4 = Some (evOffset, d5)"
    and inc: "increasing_offsets evOffset" and lst: "last evOffset < ircount"
    and ear: "load_left_ear hrir_length history_length ok rate irsize evcount
           (offsets_to_counts ircount evOffset) evOffset ircount d5 = Inr h"
    by (rule LoadHrtf00_Inr)
  have n: "length evOffset = evcount" using offs by (rule read_n_length)
  have pos: "0 < evcount" using evc by (simp add: bad_ev_count_def MIN_EV_COUNT_def)
  then have ne: "evOffset \<noteq> []" using n by auto
  have "list_all (\<lambda>v. v < 65536) evOffset"
    using GetLE_ALushort_bound offs by (rule read_n_all)
  then have small: "\<forall>x \<in> set evOffset. x < 65536" by (simp add: list_all_iff)
  have irc': "ircount < 65536" using irc by (rule GetLE_ALushort_bound)
  have sep: "separated (hd evOffset) (zip evOffset (offsets_to_counts ircount evOffset))"
    using inc ne small by (rule offsets_to_counts_separated)
  have "last (offsets_to_counts ircount evOffset) = ircount - last evOffset"
    using offsets_to_counts_last [OF ne] ALushort_diff_minus [of "last evOffset" ircount]
      lst irc' by simp
  moreover have "last (offsets_to_counts ircount evOffset)
      = offsets_to_counts ircount evOffset ! (evcount - 1)"
    using ne n by (simp add: last_conv_nth)
  moreover have "last evOffset = evOffset ! (evcount - 1)"
    using ne n by (simp add: last_conv_nth)
  ultimately have last: "evOffset ! (evcount - 1)
      + offsets_to_counts ircount evOffset ! (evcount - 1) = ircount"
    using lst by simp
  have rate': "rate < 2 ^ 32" using rate by (rule GetLE_ALuint_bound)
  have irs': "irsize \<le> MAX_IR_SIZE" using irs by (simp add: bad_ir_size_def)
  note store = load_left_ear_store [OF ear sep _ _ pos rate' irs' last]
  show "store_mirrored h" by (rule store) (simp_all add: n)
  show "loaded_store_ok h" by (rule store) (simp_all add: n)
  show "fdCount h = 1" by (rule store) (simp_all add: n)
qed

lemma LoadHrtf01_store:
  assumes l: "LoadHrtf01 hrir_length history_length ok data = Inr h"
  shows "store_mirrored h" and "loaded_store_ok h" and "fdCount h = 1"
proof -
  from l obtain rate irsize evcount azcounts d1 d2 d3 d4 where
    rate: "GetLE_ALuint data = Some (rate, d1)"
    and "GetLE_ALubyte d1 = Some (irsize, d2)" and "GetLE_ALubyte d2 = Some (evcount, d3)"
    and irs: "\<not> bad_ir_size irsize" and evc: "\<not> bad_ev_count evcount"
    and azs: "read_n evcount GetLE_ALubyte d3 = Some (azcounts, d4)"
    and good: "\<not> list_ex bad_az_count azcounts"
    and ear: "load_left_ear hrir_length history_length ok rate irsize evcount azcounts
           (running_offsets 0 azcounts) (ALushort_sum azcounts) d4 = Inr h"
    by (rule LoadHrtf01_Inr)
  have n: "length azcounts = evcount" using azs by (rule read_n_length)
  have pos: "0 < evcount" and le: "evcount \<le> 181"
    using evc by (simp_all add: bad_ev_count_def MIN_EV_COUNT_def MAX_EV_COUNT_def)
  then have ne: "azcounts \<noteq> []" using n by auto
  have "sum_list azcounts \<le> 255 * length azcounts"
    using good by (rule azcounts_sum_bound)
  also have "\<dots> \<le> 255 * 181" using n le by simp
  finally have small: "sum_list azcounts < 65536" by simp
  have sum: "ALushort_sum azcounts = sum_list azcounts"
    using ne small by (rule ALushort_sum_sum_list)
  have sep: "separated 0 (zip (running_offsets 0 azcounts) azcounts)"
    using small by (intro running_offsets_separated) simp
  have last: "running_offsets 0 azcounts ! (evcount - 1) + azcounts ! (evcount - 1)
      = ALushort_sum azcounts"
    using running_offsets_last [OF small ne] n sum by simp
  have rate': "rate < 2 ^ 32" using rate by (rule GetLE_ALuint_bound)
  have irs': "irsize \<le> MAX_IR_SIZE" using irs by (simp add: bad_ir_size_def)
  note store = load_left_ear_store [OF ear sep _ n pos rate' irs' last]
  show "store_mirrored h" by (rule store) simp
  show "loaded_store_ok h" by (rule store) simp
  show "fdCount h = 1" by (rule store) simp
qed

subsection \<open>The reversal of the fields as a regrouping\<close>

text \<open>A list cut into consecutive groups of given sizes.\<close>

fun groups :: "nat list \<Rightarrow> 'a list \<Rightarrow> 'a list list" where
  "groups [] xs = []"
| "groups (n # ns) xs = take n xs # groups ns (drop n xs)"

lemma groups_length [simp]: "length (groups ns xs) = length ns"
  by (induction ns arbitrary: xs) simp_all

lemma groups_concat: "sum_list ns = length xs \<Longrightarrow> concat (groups ns xs) = xs"
proof (induction ns arbitrary: xs)
  case Nil
  then show ?case by simp
next
  case (Cons n ns)
  then have "sum_list ns = length (drop n xs)" by simp
  then have "concat (groups ns (drop n xs)) = drop n xs" by (rule Cons.IH)
  then show ?case by simp
qed

lemma groups_sizes:
  "sum_list ns \<le> length xs \<Longrightarrow> map length (groups ns xs) = ns"
proof (induction ns arbitrary: xs)
  case Nil
  then show ?case by simp
next
  case (Cons n ns)
  then have "sum_list ns \<le> length (drop n xs)" by simp
  then have "map length (groups ns (drop n xs)) = ns" by (rule Cons.IH)
  then show ?case using Cons.prems by simp
qed

lemma copy_azs_fold:
  "snd (fold (\<lambda>num_evs (ebase, out).
                (ebase + num_evs, take num_evs (drop ebase azcounts) @ out)) evcounts (ebase, out))
   = concat (rev (groups evcounts (drop ebase azcounts))) @ out"
proof (induction evcounts arbitrary: ebase out)
  case Nil
  then show ?case by simp
next
  case (Cons n ns)
  have "drop n (drop ebase azcounts) = drop (ebase + n) azcounts"
    by (simp add: add.commute)
  then show ?case by (simp add: Cons.IH)
qed

lemma copy_azs_groups: "copy_azs evcounts azcounts = concat (rev (groups evcounts azcounts))"
  using copy_azs_fold [of azcounts evcounts 0 "[]"] by (simp add: copy_azs_def)

lemma groups_sum_take:
  "sum_list (take n (drop ebase azs)) + sum_list (take ebase azs)
   = sum_list (take (ebase + n) (azs :: nat list))"
proof -
  have "take (ebase + n) azs = take ebase azs @ take n (drop ebase azs)"
    by (simp add: take_add)
  then show ?thesis by simp
qed

lemma copy_irs_fold:
  "snd (fold (\<lambda>num_evs (ebase, out).
                (ebase + num_evs,
                 take (sum_list (take num_evs (drop ebase azcounts)) * stride)
                   (drop (sum_list (take ebase azcounts) * stride) irs) @ out))
          evcounts (ebase, out))
   = concat (rev (groups (map (\<lambda>g. sum_list g * stride) (groups evcounts (drop ebase azcounts)))
                    (drop (sum_list (take ebase azcounts) * stride) irs))) @ out"
proof (induction evcounts arbitrary: ebase out)
  case Nil
  then show ?case by simp
next
  case (Cons n ns)
  have 1: "drop n (drop ebase azcounts) = drop (ebase + n) azcounts"
    by (simp add: add.commute)
  have 2: "drop (sum_list (take n (drop ebase azcounts)) * stride)
             (drop (sum_list (take ebase azcounts) * stride) irs)
         = drop (sum_list (take (ebase + n) azcounts) * stride) irs"
    using groups_sum_take [of n ebase azcounts] by (simp add: add_mult_distrib [symmetric])
  show ?case by (simp add: Cons.IH 1 2 del: drop_drop)
qed

lemma copy_irs_groups:
  "copy_irs stride evcounts azcounts irs
   = concat (rev (groups (map (\<lambda>g. sum_list g * stride) (groups evcounts azcounts)) irs))"
  using copy_irs_fold [of azcounts stride irs evcounts 0 "[]"]
  by (simp add: copy_irs_def Let_def)

lemma block_sizes_concat:
  "sum_list (map (\<lambda>g. sum_list g * stride) gs) = sum_list (concat gs) * (stride :: nat)"
  by (induction gs) (simp_all add: add_mult_distrib)

lemma groups_block_sizes:
  assumes "sum_list ns = length azs"
  shows "sum_list (map (\<lambda>g. sum_list g * stride) (groups ns azs))
       = sum_list azs * (stride :: nat)"
  using groups_concat [OF assms] by (simp add: block_sizes_concat)

lemma concat_rev_sum: "sum_list (concat (rev gs)) = sum_list (concat (gs :: nat list list))"
  by (induction gs) simp_all

lemma concat_rev_length: "length (concat (rev gs)) = length (concat gs)"
  by (induction gs) simp_all

lemma concat_rev_set: "set (concat (rev gs)) = set (concat gs)"
  by simp

lemma copy_azs_sum:
  "sum_list evcounts = length azcounts \<Longrightarrow> sum_list (copy_azs evcounts azcounts) = sum_list azcounts"
  by (simp add: copy_azs_groups concat_rev_sum groups_concat)

lemma copy_azs_length:
  "sum_list evcounts = length azcounts \<Longrightarrow> length (copy_azs evcounts azcounts) = length azcounts"
  by (simp add: copy_azs_groups concat_rev_length groups_concat)

lemma copy_irs_length:
  assumes "sum_list evcounts = length azcounts" and "length irs = sum_list azcounts * stride"
  shows "length (copy_irs stride evcounts azcounts irs) = length irs"
proof -
  have "sum_list (map (\<lambda>g. sum_list g * stride) (groups evcounts azcounts)) = length irs"
    using groups_block_sizes [OF assms(1)] assms(2) by simp
  then show ?thesis
    by (simp add: copy_irs_groups concat_rev_length groups_concat)
qed

lemma copy_irs_set:
  assumes "sum_list evcounts = length azcounts" and "length irs = sum_list azcounts * stride"
  shows "set (copy_irs stride evcounts azcounts irs) = set irs"
proof -
  have "sum_list (map (\<lambda>g. sum_list g * stride) (groups evcounts azcounts)) = length irs"
    using groups_block_sizes [OF assms(1)] assms(2) by simp
  then have "concat (groups (map (\<lambda>g. sum_list g * stride) (groups evcounts azcounts)) irs) = irs"
    by (rule groups_concat)
  then show ?thesis
    unfolding copy_irs_groups concat_rev_set by simp
qed

subsection \<open>Mirroring is kept by the reversal of the fields\<close>

text \<open>
  The mirror property told elevation by elevation along the vector: the first \<open>n\<close> IRs
  are mirrored among themselves, and so on for the rest.
\<close>

fun mirrored :: "nat \<Rightarrow> nat list \<Rightarrow> ('a \<times> 'a) list \<Rightarrow> bool" where
  "mirrored stride [] xs = True"
| "mirrored stride (n # ns) xs =
     ((\<forall>j < n. \<forall>k < stride.
         snd (xs ! (((n - j) mod n) * stride + k)) = fst (xs ! (j * stride + k)))
      \<and> mirrored stride ns (drop (n * stride) xs))"

lemma mirrored_at_Cons:
  "mirrored_at stride (b # offs) (n # ns) xs \<longleftrightarrow>
     (\<forall>j < n. \<forall>k < stride.
         snd (xs ! ((b + (n - j) mod n) * stride + k)) = fst (xs ! ((b + j) * stride + k)))
     \<and> mirrored_at stride offs ns xs"
proof
  assume l: "mirrored_at stride (b # offs) (n # ns) xs"
  have "\<forall>j < n. \<forall>k < stride.
         snd (xs ! ((b + (n - j) mod n) * stride + k)) = fst (xs ! ((b + j) * stride + k))"
    using l [unfolded mirrored_at_def, rule_format, of 0] by simp
  moreover have "mirrored_at stride offs ns xs"
    unfolding mirrored_at_def
  proof (intro allI impI)
    fix e j k
    assume "e < length ns" "j < ns ! e" "k < stride"
    then show "snd (xs ! ((offs ! e + (ns ! e - j) mod ns ! e) * stride + k))
        = fst (xs ! ((offs ! e + j) * stride + k))"
      using l [unfolded mirrored_at_def, rule_format, of "Suc e" j k] by simp
  qed
  ultimately show "(\<forall>j < n. \<forall>k < stride.
         snd (xs ! ((b + (n - j) mod n) * stride + k)) = fst (xs ! ((b + j) * stride + k)))
     \<and> mirrored_at stride offs ns xs" by simp
next
  assume r: "(\<forall>j < n. \<forall>k < stride.
         snd (xs ! ((b + (n - j) mod n) * stride + k)) = fst (xs ! ((b + j) * stride + k)))
     \<and> mirrored_at stride offs ns xs"
  show "mirrored_at stride (b # offs) (n # ns) xs"
    unfolding mirrored_at_def
  proof (intro allI impI)
    fix e j k
    assume e: "e < length (n # ns)" and j: "j < (n # ns) ! e" and k: "k < stride"
    show "snd (xs ! (((b # offs) ! e + ((n # ns) ! e - j) mod (n # ns) ! e) * stride + k))
        = fst (xs ! (((b # offs) ! e + j) * stride + k))"
    proof (cases e)
      case 0
      then show ?thesis using r j k by simp
    next
      case (Suc e')
      then show ?thesis
        using r e j k by (simp add: mirrored_at_def)
    qed
  qed
qed

lemma mirrored_iff_at:
  assumes "(b + sum_list azs) * stride \<le> length xs" and "b + sum_list azs < 65536"
  shows "mirrored stride azs (drop (b * stride) xs)
     \<longleftrightarrow> mirrored_at stride (running_offsets b azs) azs xs"
  using assms
proof (induction azs arbitrary: b)
  case Nil
  then show ?case by (simp add: mirrored_at_def)
next
  case (Cons n ns)
  have wrap: "(b + n) mod 65536 = b + n" using Cons.prems by simp
  have b: "b * stride \<le> length xs"
  proof -
    have "b * stride \<le> (b + sum_list (n # ns)) * stride" by (intro mult_le_mono1) simp
    also have "\<dots> \<le> length xs" by (rule Cons.prems(1))
    finally show ?thesis .
  qed
  have nth: "drop (b * stride) xs ! i = xs ! (b * stride + i)" for i
    using b by (rule nth_drop)
  have rest: "mirrored stride ns (drop ((b + n) * stride) xs)
      \<longleftrightarrow> mirrored_at stride (running_offsets (b + n) ns) ns xs"
    using Cons.prems by (intro Cons.IH) (simp_all add: add.assoc)
  have dd: "drop (n * stride) (drop (b * stride) xs) = drop ((b + n) * stride) xs"
    by (simp add: add_mult_distrib add.commute)
  show ?case
    unfolding mirrored.simps running_offsets.simps wrap mirrored_at_Cons dd rest nth
    by (simp add: add_mult_distrib add.assoc)
qed

lemma mirrored_append:
  assumes "length xs = sum_list as1 * stride"
  shows "mirrored stride (as1 @ as2) (xs @ ys)
     \<longleftrightarrow> mirrored stride as1 xs \<and> mirrored stride as2 ys"
  using assms
proof (induction as1 arbitrary: xs)
  case Nil
  then show ?case by simp
next
  case (Cons n ns)
  have len: "n * stride \<le> length xs"
    using Cons.prems by (simp add: add_mult_distrib)
  have first: "(xs @ ys) ! (i * stride + k) = xs ! (i * stride + k)"
    if "i < n" "k < stride" for i k
  proof -
    have "i * stride + k < n * stride" using that by (rule strided_index_less)
    then show ?thesis using len by (simp add: nth_append)
  qed
  have "(\<forall>j < n. \<forall>k < stride.
          snd ((xs @ ys) ! (((n - j) mod n) * stride + k)) = fst ((xs @ ys) ! (j * stride + k)))
      \<longleftrightarrow> (\<forall>j < n. \<forall>k < stride.
          snd (xs ! (((n - j) mod n) * stride + k)) = fst (xs ! (j * stride + k)))"
    using first by (auto simp: mirror_index_less)
  moreover have "drop (n * stride) (xs @ ys) = drop (n * stride) xs @ ys"
    using len by simp
  moreover have "mirrored stride (ns @ as2) (drop (n * stride) xs @ ys)
      \<longleftrightarrow> mirrored stride ns (drop (n * stride) xs) \<and> mirrored stride as2 ys"
    using Cons.prems by (intro Cons.IH) (simp add: add_mult_distrib)
  ultimately show ?case by simp
qed

lemma mirrored_concat:
  assumes "list_all2 (\<lambda>g B. length B = sum_list g * stride \<and> mirrored stride g B) gs Bs"
  shows "mirrored stride (concat gs) (concat Bs)"
  using assms
proof (induction gs Bs rule: list_all2_induct)
  case Nil
  then show ?case by simp
next
  case (Cons g gs B Bs)
  then show ?case by (simp add: mirrored_append)
qed

lemma mirrored_groups:
  assumes "mirrored stride (concat gs) xs" and "length xs = sum_list (concat gs) * stride"
  shows "list_all2 (\<lambda>g B. length B = sum_list g * stride \<and> mirrored stride g B) gs
           (groups (map (\<lambda>g. sum_list g * stride) gs) xs)"
  using assms
proof (induction gs arbitrary: xs)
  case Nil
  then show ?case by simp
next
  case (Cons g gs)
  define m where "m = sum_list g * stride"
  have m: "m \<le> length xs" using Cons.prems by (simp add: m_def add_mult_distrib)
  then have lt: "length (take m xs) = sum_list g * stride" by (simp add: m_def)
  have "mirrored stride (g @ concat gs) (take m xs @ drop m xs)"
    using Cons.prems by simp
  then have both: "mirrored stride g (take m xs) \<and> mirrored stride (concat gs) (drop m xs)"
    using mirrored_append [OF lt] by blast
  moreover have "length (drop m xs) = sum_list (concat gs) * stride"
    using Cons.prems by (simp add: m_def add_mult_distrib)
  ultimately have "list_all2 (\<lambda>g B. length B = sum_list g * stride \<and> mirrored stride g B) gs
           (groups (map (\<lambda>g. sum_list g * stride) gs) (drop m xs))"
    by (intro Cons.IH) simp_all
  then show ?case using both lt by (simp add: m_def)
qed

lemma reverse_mirrored_at:
  assumes at: "mirrored_at stride (running_offsets 0 azs) azs xs"
    and evs: "sum_list evs = length azs"
    and len: "length xs = sum_list azs * stride"
    and small: "sum_list azs < 65536"
  shows "mirrored_at stride (running_offsets 0 (copy_azs evs azs)) (copy_azs evs azs)
           (copy_irs stride evs azs xs)"
proof -
  let ?P = "\<lambda>g B. length B = sum_list g * stride \<and> mirrored stride g B"
  let ?gs = "groups evs azs"
  let ?Bs = "groups (map (\<lambda>g. sum_list g * stride) ?gs) xs"
  have gs: "concat ?gs = azs" using evs by (rule groups_concat)
  have "mirrored stride azs (drop (0 * stride) xs)"
    using at len small mirrored_iff_at [of 0 azs stride xs] by simp
  then have "mirrored stride (concat ?gs) xs" by (simp add: gs)
  then have "list_all2 ?P ?gs ?Bs"
    using len by (intro mirrored_groups) (simp_all add: gs)
  then have "list_all2 ?P (rev ?gs) (rev ?Bs)" by (simp add: list_all2_rev)
  then have "mirrored stride (concat (rev ?gs)) (concat (rev ?Bs))"
    by (rule mirrored_concat)
  then have m: "mirrored stride (copy_azs evs azs) (copy_irs stride evs azs xs)"
    by (simp add: copy_azs_groups copy_irs_groups)
  have "length (copy_irs stride evs azs xs) = sum_list (copy_azs evs azs) * stride"
    using copy_irs_length [OF evs len] copy_azs_sum [OF evs] len by simp
  moreover have "sum_list (copy_azs evs azs) < 65536"
    using copy_azs_sum [OF evs] small by simp
  ultimately show ?thesis
    using m mirrored_iff_at [of 0 "copy_azs evs azs" stride "copy_irs stride evs azs xs"]
    by simp
qed

subsection \<open>The tables of format 2\<close>

text \<open>
  What the field loop keeps true of the lists it builds: one distance and one elevation
  count per field, one azimuth count per elevation, distances that grow from field to
  field, and counts within their limits.
\<close>

definition fields_ok :: "nat list \<Rightarrow> nat list \<Rightarrow> nat list \<Rightarrow> bool" where
  "fields_ok distances evcounts azcounts =
     (length distances = length evcounts \<and> sum_list evcounts = length azcounts
      \<and> sorted_wrt (<) distances \<and> \<not> list_ex bad_ev_count evcounts
      \<and> \<not> list_ex bad_az_count azcounts)"

lemma sorted_wrt_less_last:
  "sorted_wrt (<) xs \<Longrightarrow> x \<in> set xs \<Longrightarrow> x \<le> last (xs :: nat list)"
proof (induction xs)
  case Nil
  then show ?case by simp
next
  case (Cons a xs)
  show ?case
  proof (cases "xs = []")
    case True
    then show ?thesis using Cons.prems by simp
  next
    case False
    then have "last xs \<in> set xs" by simp
    then have a: "a \<le> last xs" using Cons.prems by auto
    have "x \<le> last xs"
    proof (cases "x = a")
      case True
      then show ?thesis using a by simp
    next
      case False
      then have "x \<in> set xs" using Cons.prems by simp
      then show ?thesis using Cons by simp
    qed
    then show ?thesis using \<open>xs \<noteq> []\<close> by simp
  qed
qed

lemma read_fields_step:
  assumes "read_fields (Suc n) distances evcounts azcounts data = Inr r"
  obtains dist_mm evcount azs d1 d2 d3 where
    "GetLE_ALushort data = Some (dist_mm, d1)" and "GetLE_ALubyte d1 = Some (evcount, d2)"
    and "distances \<noteq> [] \<longrightarrow> last distances < dist_mm"
    and "\<not> bad_ev_count evcount"
    and "read_n evcount GetLE_ALubyte d2 = Some (azs, d3)"
    and "\<not> list_ex bad_az_count azs"
    and "read_fields n (distances @ [dist_mm]) (evcounts @ [evcount]) (azcounts @ azs) d3 = Inr r"
  using assms
  by (auto simp: not_le split: option.splits sum.splits if_splits prod.splits Option.bind_splits)

lemma read_fields_ok:
  assumes "read_fields n distances evcounts azcounts data
             = Inr ((distances', evcounts', azcounts'), rest)"
    and "fields_ok distances evcounts azcounts"
  shows "fields_ok distances' evcounts' azcounts' \<and> length evcounts' = length evcounts + n"
  using assms
proof (induction n arbitrary: distances evcounts azcounts data)
  case 0
  then show ?case by simp
next
  case (Suc n)
  from Suc.prems(1) obtain dist_mm evcount azs d1 d2 d3 where
    last: "distances \<noteq> [] \<longrightarrow> last distances < dist_mm"
    and ev: "\<not> bad_ev_count evcount"
    and azs: "read_n evcount GetLE_ALubyte d2 = Some (azs, d3)"
    and good: "\<not> list_ex bad_az_count azs"
    and rec: "read_fields n (distances @ [dist_mm]) (evcounts @ [evcount]) (azcounts @ azs) d3
               = Inr ((distances', evcounts', azcounts'), rest)"
    by (rule read_fields_step)
  have "\<forall>x \<in> set distances. x < dist_mm"
  proof
    fix x assume x: "x \<in> set distances"
    then have "distances \<noteq> []" by auto
    moreover have "x \<le> last distances"
      using Suc.prems(2) x by (intro sorted_wrt_less_last) (simp_all add: fields_ok_def)
    ultimately show "x < dist_mm" using last by simp
  qed
  then have "fields_ok (distances @ [dist_mm]) (evcounts @ [evcount]) (azcounts @ azs)"
    using Suc.prems(2) ev good read_n_length [OF azs]
    by (simp add: fields_ok_def sorted_wrt_append)
  from Suc.IH [OF rec this] show ?case by simp
qed

lemma good_ev_counts_sum:
  "\<not> list_ex bad_ev_count evs \<Longrightarrow> evs \<noteq> [] \<Longrightarrow> 0 < sum_list evs"
  by (cases evs) (auto simp: bad_ev_count_def MIN_EV_COUNT_def)

lemma sum_list_take_nth_le:
  "e < length azs \<Longrightarrow> sum_list (take e azs) + azs ! e \<le> sum_list (azs :: nat list)"
proof -
  assume e: "e < length azs"
  have "azs = take (Suc e) azs @ drop (Suc e) azs" by simp
  then have "sum_list azs = sum_list (take (Suc e) azs) + sum_list (drop (Suc e) azs)"
    by (metis sum_list_append)
  moreover have "sum_list (take (Suc e) azs) = sum_list (take e azs) + azs ! e"
    using e by (simp add: take_Suc_conv_app_nth)
  ultimately show ?thesis by simp
qed

lemma read_ir_data_Inr:
  assumes "read_ir_data history_length sampleType channelType irsize irTotal data = Inr (cs, ds)"
  shows "length cs = irTotal * irsize" and "length ds = irTotal"
    and "\<forall>d \<in> set ds. fst d < 256 \<and> snd d < 256"
proof -
  have "length cs = irTotal * irsize \<and> length ds = irTotal
      \<and> (\<forall>d \<in> set ds. fst d < 256 \<and> snd d < 256)"
  proof (cases "channelType = CHANTYPE_LEFTONLY")
    case True
    with assms obtain ds0 d1 d2 where
      rc: "read_n (irsize * irTotal) (left_only (read_sample sampleType) 0) data = Some (cs, d1)"
      and rd: "read_n irTotal (left_only GetLE_ALubyte 0) d1 = Some (ds0, d2)"
      and ds: "ds = map (\<lambda>d. (shift_delay (fst d), snd d)) ds0"
      by (auto simp: read_ir_data_def
          split: option.splits if_splits prod.splits Option.bind_splits)
    have "list_all (\<lambda>v. fst v < 256 \<and> snd v = 0) ds0"
      using left_only_ubyte_bound rd by (rule read_n_all)
    then have "\<forall>d \<in> set ds. fst d < 256 \<and> snd d < 256"
      by (auto simp: ds list_all_iff shift_delay_bound)
    then show ?thesis
      using read_n_length [OF rc] read_n_length [OF rd] by (simp add: ds mult.commute)
  next
    case False
    with assms obtain ds0 d1 d2 where
      rc: "read_n (irsize * irTotal) (left_right (read_sample sampleType)) data = Some (cs, d1)"
      and rd: "read_n irTotal (left_right GetLE_ALubyte) d1 = Some (ds0, d2)"
      and ds: "ds = map (\<lambda>d. (shift_delay (fst d), shift_delay (snd d))) ds0"
      by (auto simp: read_ir_data_def
          split: option.splits if_splits prod.splits Option.bind_splits)
    have "\<forall>d \<in> set ds. fst d < 256 \<and> snd d < 256"
      by (auto simp: ds shift_delay_bound)
    then show ?thesis
      using read_n_length [OF rc] read_n_length [OF rd] by (simp add: ds mult.commute)
  qed
  then show "length cs = irTotal * irsize" and "length ds = irTotal"
    and "\<forall>d \<in> set ds. fst d < 256 \<and> snd d < 256"
    by simp_all
qed

lemma load_tables02_Inr:
  assumes "load_tables02 history_length sampleType channelType irsize fdcount data
             = Inr (irTotal, t)"
  obtains distances evcounts azcounts d1 cs0 ds0 cs ds where
    "read_fields fdcount [] [] [] data = Inr ((distances, evcounts, azcounts), d1)"
    and "irTotal = (last (running_offsets 0 azcounts) + last azcounts) mod 65536"
    and "read_ir_data history_length sampleType channelType irsize irTotal d1 = Inr (cs0, ds0)"
    and "(if channelType = CHANTYPE_LEFTONLY
          then mirror_left_to_right irsize irTotal (running_offsets 0 azcounts) azcounts (cs0, ds0)
          else Inr (cs0, ds0)) = Inr (cs, ds)"
    and "(if 1 < fdcount
          then reverse_fields irsize irTotal
                 \<lparr> ft_distance = distances, ft_evCount = evcounts, ft_azCount = azcounts,
                   ft_evOffset = running_offsets 0 azcounts, ft_coeffs = cs, ft_delays = ds \<rparr>
          else Inr \<lparr> ft_distance = distances, ft_evCount = evcounts, ft_azCount = azcounts,
                     ft_evOffset = running_offsets 0 azcounts, ft_coeffs = cs, ft_delays = ds \<rparr>)
         = Inr t"
  using assms unfolding load_tables02_def Let_def
  by (auto split: sum.splits prod.splits)

text \<open>
  The tables handed to \<open>CreateHrtfStore\<close> by a successful load of format 2: the sums
  did not wrap, the IR offsets are the running sums of the azimuth counts, the distances
  fall from field to field, and a left-only set is mirrored.
\<close>

lemma load_tables02_facts:
  assumes l: "load_tables02 history_length sampleType channelType irsize fdcount data
             = Inr (irTotal, t)"
    and fd: "1 \<le> fdcount"
  shows "length (ft_evCount t) = fdcount" and "length (ft_distance t) = fdcount"
    and "sum_list (ft_evCount t) = length (ft_azCount t)" and "ft_azCount t \<noteq> []"
    and "ft_evOffset t = running_offsets 0 (ft_azCount t)"
    and "sum_list (ft_azCount t) = irTotal" and "irTotal < 65536"
    and "length (ft_delays t) = irTotal"
    and "\<forall>d \<in> set (ft_delays t). fst d < 256 \<and> snd d < 256"
    and "sorted_wrt (\<lambda>a b. b < a) (ft_distance t)"
    and "channelType = CHANTYPE_LEFTONLY
         \<Longrightarrow> tables_mirrored irsize (ft_evOffset t) (ft_azCount t) (ft_coeffs t) (ft_delays t)"
proof -
  from l obtain distances evcounts azcounts d1 cs0 ds0 cs ds where
    rf: "read_fields fdcount [] [] [] data = Inr ((distances, evcounts, azcounts), d1)"
    and tot: "irTotal = (last (running_offsets 0 azcounts) + last azcounts) mod 65536"
    and rd: "read_ir_data history_length sampleType channelType irsize irTotal d1 = Inr (cs0, ds0)"
    and mi: "(if channelType = CHANTYPE_LEFTONLY
          then mirror_left_to_right irsize irTotal (running_offsets 0 azcounts) azcounts (cs0, ds0)
          else Inr (cs0, ds0)) = Inr (cs, ds)"
    and rv: "(if 1 < fdcount
          then reverse_fields irsize irTotal
                 \<lparr> ft_distance = distances, ft_evCount = evcounts, ft_azCount = azcounts,
                   ft_evOffset = running_offsets 0 azcounts, ft_coeffs = cs, ft_delays = ds \<rparr>
          else Inr \<lparr> ft_distance = distances, ft_evCount = evcounts, ft_azCount = azcounts,
                     ft_evOffset = running_offsets 0 azcounts, ft_coeffs = cs, ft_delays = ds \<rparr>)
         = Inr t"
    by (rule load_tables02_Inr)
  have "fields_ok [] [] []" by (simp add: fields_ok_def)
  from read_fields_ok [OF rf this]
  have ok: "fields_ok distances evcounts azcounts" and nev: "length evcounts = fdcount"
    by simp_all
  have ndist: "length distances = fdcount" and evs: "sum_list evcounts = length azcounts"
    and sorted: "sorted_wrt (<) distances" and goodev: "\<not> list_ex bad_ev_count evcounts"
    and goodaz: "\<not> list_ex bad_az_count azcounts"
    using ok nev by (simp_all add: fields_ok_def)
  have "evcounts \<noteq> []" using nev fd by auto
  then have "0 < sum_list evcounts" using goodev by (intro good_ev_counts_sum)
  then have ne: "azcounts \<noteq> []" using evs by auto
  have irt: "irTotal < 65536" by (simp add: tot)
  have small: "sum_list azcounts < 65536"
  proof (cases "1 < fdcount")
    case True
    then have "sum_list azcounts \<le> irTotal"
      using rv by (auto simp: reverse_fields_def split: if_splits)
    then show ?thesis using irt by simp
  next
    case False
    then have "length evcounts = 1" using fd nev by simp
    then obtain ev where ev: "evcounts = [ev]"
      by (cases evcounts) auto
    then have "ev \<le> 181" using goodev by (simp add: bad_ev_count_def MAX_EV_COUNT_def)
    moreover have "sum_list azcounts \<le> 255 * length azcounts"
      using goodaz by (rule azcounts_sum_bound)
    ultimately have "sum_list azcounts \<le> 255 * 181" using evs ev by simp
    then show ?thesis by simp
  qed
  have "running_offsets 0 azcounts \<noteq> []"
    using ne running_offsets_length [of 0 azcounts] by (metis length_0_conv)
  then have "last (running_offsets 0 azcounts)
      = running_offsets 0 azcounts ! (length (running_offsets 0 azcounts) - 1)"
    by (rule last_conv_nth)
  then have "last (running_offsets 0 azcounts) = running_offsets 0 azcounts ! (length azcounts - 1)"
    by simp
  moreover have "last azcounts = azcounts ! (length azcounts - 1)"
    using ne by (rule last_conv_nth)
  ultimately have total: "irTotal = sum_list azcounts"
    using running_offsets_last [OF small ne] small by (simp add: tot)
  note data = read_ir_data_Inr [OF rd]
  have sep: "separated 0 (zip (running_offsets 0 azcounts) azcounts)"
    using small by (intro running_offsets_separated) simp
  have lcs: "length cs = irTotal * irsize" and lds: "length ds = irTotal"
    and bytes: "\<forall>d \<in> set ds. fst d < 256 \<and> snd d < 256"
    and mirrored: "channelType = CHANTYPE_LEFTONLY
          \<Longrightarrow> tables_mirrored irsize (running_offsets 0 azcounts) azcounts cs ds"
  proof -
    show "length cs = irTotal * irsize"
      using mi data(1) mirror_left_to_right_lengths [of irsize irTotal _ azcounts cs0 ds0 cs ds]
      by (auto split: if_splits)
    show "length ds = irTotal"
      using mi data(2) mirror_left_to_right_lengths [of irsize irTotal _ azcounts cs0 ds0 cs ds]
      by (auto split: if_splits)
    show "\<forall>d \<in> set ds. fst d < 256 \<and> snd d < 256"
    proof (cases "channelType = CHANTYPE_LEFTONLY")
      case True
      then have "mirror_left_to_right irsize irTotal (running_offsets 0 azcounts) azcounts
          (cs0, ds0) = Inr (cs, ds)"
        using mi by simp
      then show ?thesis using data(2,3) by (rule mirror_left_to_right_delay_bound)
    next
      case False
      then show ?thesis using mi data(3) by simp
    qed
    show "tables_mirrored irsize (running_offsets 0 azcounts) azcounts cs ds"
      if "channelType = CHANTYPE_LEFTONLY"
    proof -
      have "mirror_left_to_right irsize irTotal (running_offsets 0 azcounts) azcounts
          (cs0, ds0) = Inr (cs, ds)"
        using mi that by simp
      then show ?thesis
        using sep _ data(1,2) by (rule mirror_left_to_right_mirrored) simp
    qed
  qed
  show "length (ft_evCount t) = fdcount" and "length (ft_distance t) = fdcount"
    and "sum_list (ft_evCount t) = length (ft_azCount t)" and "ft_azCount t \<noteq> []"
    and "ft_evOffset t = running_offsets 0 (ft_azCount t)"
    and "sum_list (ft_azCount t) = irTotal" and "irTotal < 65536"
    and "length (ft_delays t) = irTotal"
    and "\<forall>d \<in> set (ft_delays t). fst d < 256 \<and> snd d < 256"
    and "sorted_wrt (\<lambda>a b. b < a) (ft_distance t)"
    and "channelType = CHANTYPE_LEFTONLY
         \<Longrightarrow> tables_mirrored irsize (ft_evOffset t) (ft_azCount t) (ft_coeffs t) (ft_delays t)"
  proof -
    show "irTotal < 65536" by (rule irt)
    consider (rev) "1 < fdcount" | (one) "fdcount = 1" using fd by linarith
    then have "length (ft_evCount t) = fdcount \<and> length (ft_distance t) = fdcount
      \<and> sum_list (ft_evCount t) = length (ft_azCount t) \<and> ft_azCount t \<noteq> []
      \<and> ft_evOffset t = running_offsets 0 (ft_azCount t)
      \<and> sum_list (ft_azCount t) = irTotal
      \<and> length (ft_delays t) = irTotal
      \<and> (\<forall>d \<in> set (ft_delays t). fst d < 256 \<and> snd d < 256)
      \<and> sorted_wrt (\<lambda>a b. b < a) (ft_distance t)
      \<and> (channelType = CHANTYPE_LEFTONLY
         \<longrightarrow> tables_mirrored irsize (ft_evOffset t) (ft_azCount t) (ft_coeffs t) (ft_delays t))"
    proof cases
      case rev
      then have t: "t = \<lparr> ft_distance = rev distances, ft_evCount = rev evcounts,
              ft_azCount = copy_azs evcounts azcounts,
              ft_evOffset = running_offsets 0 (copy_azs evcounts azcounts),
              ft_coeffs = copy_irs irsize evcounts azcounts cs,
              ft_delays = copy_irs 1 evcounts azcounts ds \<rparr>"
        using rv by (auto simp: reverse_fields_def split: if_splits)
      have lcs': "length cs = sum_list azcounts * irsize" using lcs total by simp
      have lds': "length ds = sum_list azcounts * 1" using lds total by simp
      have "length (copy_azs evcounts azcounts) = length azcounts"
        using evs by (rule copy_azs_length)
      then have ne': "copy_azs evcounts azcounts \<noteq> []" using ne by auto
      have sorted': "sorted_wrt (\<lambda>a b. b < a) (rev distances)"
        using sorted by (simp add: sorted_wrt_rev)
      have mir: "tables_mirrored irsize (running_offsets 0 (copy_azs evcounts azcounts))
            (copy_azs evcounts azcounts) (copy_irs irsize evcounts azcounts cs)
            (copy_irs 1 evcounts azcounts ds)"
        if "channelType = CHANTYPE_LEFTONLY"
        using mirrored [OF that] reverse_mirrored_at [OF _ evs lcs' small]
          reverse_mirrored_at [OF _ evs lds' small]
        by (simp add: tables_mirrored_def)
      show ?thesis
        unfolding t
        using nev ndist evs ne' sorted' mir total
          copy_azs_length [OF evs] copy_azs_sum [OF evs]
          copy_irs_length [OF evs lds'] copy_irs_set [OF evs lds'] bytes lds
        by (simp add: sum_list_rev)
    next
      case one
      then have t: "t = \<lparr> ft_distance = distances, ft_evCount = evcounts,
              ft_azCount = azcounts, ft_evOffset = running_offsets 0 azcounts,
              ft_coeffs = cs, ft_delays = ds \<rparr>"
        using rv by simp
      have "sorted_wrt (\<lambda>a b. b < a) distances"
        using ndist one by (cases distances) auto
      then show ?thesis
        unfolding t using nev ndist evs ne total lds bytes mirrored by simp
    qed
    then show "length (ft_evCount t) = fdcount" and "length (ft_distance t) = fdcount"
      and "sum_list (ft_evCount t) = length (ft_azCount t)" and "ft_azCount t \<noteq> []"
      and "ft_evOffset t = running_offsets 0 (ft_azCount t)"
      and "sum_list (ft_azCount t) = irTotal"
      and "length (ft_delays t) = irTotal"
      and "\<forall>d \<in> set (ft_delays t). fst d < 256 \<and> snd d < 256"
      and "sorted_wrt (\<lambda>a b. b < a) (ft_distance t)"
      and "channelType = CHANTYPE_LEFTONLY
         \<Longrightarrow> tables_mirrored irsize (ft_evOffset t) (ft_azCount t) (ft_coeffs t) (ft_delays t)"
      by auto
  qed
qed

lemma LoadHrtf02_Inr:
  assumes "LoadHrtf02 hrir_length history_length ok data = Inr h"
  obtains rate sampleType channelType irsize fdcount d1 d2 d3 d4 d5 irTotal t where
    "GetLE_ALuint data = Some (rate, d1)" and "GetLE_ALubyte d1 = Some (sampleType, d2)"
    and "GetLE_ALubyte d2 = Some (channelType, d3)" and "GetLE_ALubyte d3 = Some (irsize, d4)"
    and "GetLE_ALubyte d4 = Some (fdcount, d5)"
    and "\<not> bad_ir_size irsize" and "1 \<le> fdcount"
    and "load_tables02 history_length sampleType channelType irsize fdcount d5 = Inr (irTotal, t)"
    and "CreateHrtfStore hrir_length ok rate irsize fdcount (ft_evCount t) (ft_distance t)
           (ft_azCount t) (ft_evOffset t) irTotal (ft_coeffs t) (ft_delays t) = Inr h"
  using assms unfolding LoadHrtf02_def
  by (auto split: option.splits sum.splits if_splits prod.splits Option.bind_splits)

text \<open>
  The field distances of a store fall from each field to the next: the store lists its
  fields from the farthest to the nearest.
\<close>

definition distances_decreasing :: "HrtfStore \<Rightarrow> bool" where
  "distances_decreasing h =
     list_all (\<lambda>i. distance (field h ! (i + 1)) < distance (field h ! i)) [0..<fdCount h - 1]"

text \<open>The order the specification states: each field nearer than the next.\<close>

definition distances_increasing :: "HrtfStore \<Rightarrow> bool" where
  "distances_increasing h =
     list_all (\<lambda>i. distance (field h ! i) < distance (field h ! (i + 1))) [0..<fdCount h - 1]"

lemma LoadHrtf02_store:
  assumes l: "LoadHrtf02 hrir_length history_length ok data = Inr h"
  shows "loaded_store_ok h" and "distances_decreasing h"
    and "GetLE_ALuint data = Some (rate, d1) \<Longrightarrow> GetLE_ALubyte d1 = Some (sampleType, d2)
         \<Longrightarrow> GetLE_ALubyte d2 = Some (CHANTYPE_LEFTONLY, d3) \<Longrightarrow> store_mirrored h"
proof -
  from l obtain rate' sampleType' channelType irsize fdcount e1 e2 e3 e4 e5 irTotal t where
    rate: "GetLE_ALuint data = Some (rate', e1)"
    and st: "GetLE_ALubyte e1 = Some (sampleType', e2)"
    and ct: "GetLE_ALubyte e2 = Some (channelType, e3)"
    and "GetLE_ALubyte e3 = Some (irsize, e4)"
    and "GetLE_ALubyte e4 = Some (fdcount, e5)"
    and irs: "\<not> bad_ir_size irsize" and fd: "1 \<le> fdcount"
    and tab: "load_tables02 history_length sampleType' channelType irsize fdcount e5
                = Inr (irTotal, t)"
    and c: "CreateHrtfStore hrir_length ok rate' irsize fdcount (ft_evCount t) (ft_distance t)
           (ft_azCount t) (ft_evOffset t) irTotal (ft_coeffs t) (ft_delays t) = Inr h"
    by (rule LoadHrtf02_Inr)
  note t = load_tables02_facts [OF tab fd]
  note h = CreateHrtfStore_Inr [OF c]
  have rate': "rate' < 2 ^ 32" using rate by (rule GetLE_ALuint_bound)
  have irs': "irsize \<le> MAX_IR_SIZE" using irs by (simp add: bad_ir_size_def)
  have take: "take fdcount (ft_evCount t) = ft_evCount t" using t(1) by simp
  have n: "sum_list (take fdcount (ft_evCount t)) = length (ft_azCount t)"
    using t(3) take by simp
  have pos: "0 < sum_list (take fdcount (ft_evCount t))" using n t(4) by simp
  have small: "sum_list (ft_azCount t) < 65536" using t(6,7) by simp
  have last: "ft_evOffset t ! (sum_list (take fdcount (ft_evCount t)) - 1)
      + ft_azCount t ! (sum_list (take fdcount (ft_evCount t)) - 1) = irTotal"
    using running_offsets_last [OF small t(4)] t(5,6) n by simp
  show "loaded_store_ok h"
    using c rate' irs' t(8) t(9) _ pos last by (rule CreateHrtfStore_ok) (simp add: t(1))
  show "distances_decreasing h"
    unfolding distances_decreasing_def list_all_iff
  proof
    fix i assume "i \<in> set [0..<fdCount h - 1]"
    then have i: "i + 1 < fdcount" by (simp add: h(4))
    then have "ft_distance t ! (i + 1) < ft_distance t ! i"
      using t(10) t(2) by (simp add: sorted_wrt_iff_nth_less)
    then show "distance (field h ! (i + 1)) < distance (field h ! i)"
      using i by (simp add: h(5))
  qed
  show "store_mirrored h"
    if "GetLE_ALuint data = Some (rate, d1)" and "GetLE_ALubyte d1 = Some (sampleType, d2)"
      and "GetLE_ALubyte d2 = Some (CHANTYPE_LEFTONLY, d3)"
  proof -
    have "channelType = CHANTYPE_LEFTONLY" using that rate st ct by simp
    then have m: "tables_mirrored irsize (ft_evOffset t) (ft_azCount t) (ft_coeffs t)
        (ft_delays t)"
      by (rule t(11))
    have "\<forall>e < length (ft_azCount t). ft_evOffset t ! e + ft_azCount t ! e \<le> irTotal"
    proof (intro allI impI)
      fix e assume e: "e < length (ft_azCount t)"
      have "running_offsets 0 (ft_azCount t) ! e = 0 + sum_list (take e (ft_azCount t))"
        using small e by (intro running_offsets_nth) simp_all
      then show "ft_evOffset t ! e + ft_azCount t ! e \<le> irTotal"
        using sum_list_take_nth_le [OF e] t(5,6) by simp
    qed
    with c m n show ?thesis by (rule CreateHrtfStore_mirrored)
  qed
qed

lemma one_field_decreasing: "fdCount h = 1 \<Longrightarrow> distances_decreasing h"
  by (simp add: distances_decreasing_def)

lemma read_data_set_Inr:
  assumes "read_data_set env stream = Inr h"
  shows "LoadHrtf02 (HRIR_LENGTH env) (HRTF_HISTORY_LENGTH env) (alloc_ok env) (drop 8 stream) = Inr h
       \<or> LoadHrtf01 (HRIR_LENGTH env) (HRTF_HISTORY_LENGTH env) (alloc_ok env) (drop 8 stream) = Inr h
       \<or> LoadHrtf00 (HRIR_LENGTH env) (HRTF_HISTORY_LENGTH env) (alloc_ok env) (drop 8 stream) = Inr h"
  using assms unfolding read_data_set_def
  by (auto split: if_splits sum.splits)

lemma read_data_set_store:
  assumes "read_data_set env stream = Inr h"
  shows "loaded_store_ok h" and "distances_decreasing h"
proof -
  from read_data_set_Inr [OF assms]
  consider
    (v2) "LoadHrtf02 (HRIR_LENGTH env) (HRTF_HISTORY_LENGTH env) (alloc_ok env) (drop 8 stream)
            = Inr h"
    | (v1) "LoadHrtf01 (HRIR_LENGTH env) (HRTF_HISTORY_LENGTH env) (alloc_ok env) (drop 8 stream)
            = Inr h"
    | (v0) "LoadHrtf00 (HRIR_LENGTH env) (HRTF_HISTORY_LENGTH env) (alloc_ok env) (drop 8 stream)
            = Inr h"
    by blast
  then have "loaded_store_ok h \<and> distances_decreasing h"
  proof cases
    case v2
    then show ?thesis by (simp add: LoadHrtf02_store(1,2))
  next
    case v1
    then show ?thesis by (simp add: LoadHrtf01_store(2,3) one_field_decreasing)
  next
    case v0
    then show ?thesis by (simp add: LoadHrtf00_store(2,3) one_field_decreasing)
  qed
  then show "loaded_store_ok h" and "distances_decreasing h" by simp_all
qed

subsection \<open>What the conditioner leaves in the store\<close>

lemma apply_hrtf_size_fields [simp]:
  "delays (apply_hrtf_size opt h) = delays h"
  "sampleRate (apply_hrtf_size opt h) = sampleRate h"
  by (simp_all add: apply_hrtf_size_def split: option.splits)

lemma condition_store_delays:
  assumes ok: "loaded_store_ok hrtf" and ne: "sampleRate hrtf \<noteq> devrate"
    and dev: "devrate < 2 ^ 32" and sa: "delay_static_assert (HRTF_HISTORY_LENGTH env)"
    and c: "condition_store env devrate hrtf = Inr hrtf'"
  shows "delays hrtf' =
           map (\<lambda>d. (nearest_delay (HRTF_HISTORY_LENGTH env) (sampleRate hrtf) devrate (fst d),
                     nearest_delay (HRTF_HISTORY_LENGTH env) (sampleRate hrtf) devrate (snd d)))
             (delays hrtf)"
proof -
  have pos: "0 < sampleRate hrtf" and h': "hrtf' = apply_hrtf_size (hrtf_size env)
      (resample_store env devrate hrtf)"
    using c ne by (auto simp: condition_store_def split: if_splits)
  have small: "sampleRate hrtf < 2 ^ 32" and len: "length (delays hrtf) = store_irCount hrtf"
    and bytes: "\<forall>d \<in> set (delays hrtf). fst d < 256 \<and> snd d < 256"
    using ok by (simp_all add: loaded_store_ok_def)
  have r: "rescale_delay (HRTF_HISTORY_LENGTH env) (sampleRate hrtf) devrate v
      = nearest_delay (HRTF_HISTORY_LENGTH env) (sampleRate hrtf) devrate v" if "v < 256" for v
    using sa pos small dev that by (rule rescale_delay_nearest)
  show ?thesis
    unfolding h'
  proof (rule nth_equalityI)
    show "length (delays (apply_hrtf_size (hrtf_size env) (resample_store env devrate hrtf)))
        = length (map (\<lambda>d. (nearest_delay (HRTF_HISTORY_LENGTH env) (sampleRate hrtf) devrate (fst d),
                     nearest_delay (HRTF_HISTORY_LENGTH env) (sampleRate hrtf) devrate (snd d)))
             (delays hrtf))"
      by (simp add: resample_store_def Let_def)
  next
    fix i
    assume "i < length (delays (apply_hrtf_size (hrtf_size env) (resample_store env devrate hrtf)))"
    then have i: "i < length (delays hrtf)" by (simp add: resample_store_def Let_def)
    then have "delays hrtf ! i \<in> set (delays hrtf)" by simp
    then have "fst (delays hrtf ! i) < 256" and "snd (delays hrtf ! i) < 256"
      using bytes by simp_all
    then show "delays (apply_hrtf_size (hrtf_size env) (resample_store env devrate hrtf)) ! i
        = map (\<lambda>d. (nearest_delay (HRTF_HISTORY_LENGTH env) (sampleRate hrtf) devrate (fst d),
                     nearest_delay (HRTF_HISTORY_LENGTH env) (sampleRate hrtf) devrate (snd d)))
             (delays hrtf) ! i"
      using i len by (simp add: resample_store_def Let_def r)
  qed
qed


subsection \<open>A call of \<open>GetLoadedHrtf\<close> that reads the file\<close>

lemma cache_scan_bound: "snd (cache_scan fname devrate slots k) \<le> k + length slots"
proof (induction slots arbitrary: k)
  case Nil
  then show ?case by simp
next
  case (Cons slot slots)
  have "snd (cache_scan fname devrate slots (k + 1)) \<le> k + 1 + length slots"
    by (rule Cons.IH)
  then show ?case by (simp split: option.splits)
qed

lemma IncRef_length: "IncRef this cache = Some cache' \<Longrightarrow> length cache' = length cache"
  by (auto simp: IncRef_def split: if_splits option.splits)

text \<open>
  A call that returns a store and leaves the cache one slot longer has opened the file
  of the entry, read its data set and conditioned the store, which is the new slot.
\<close>

lemma GetLoadedHrtf_fresh:
  assumes g: "GetLoadedHrtf env EnumeratedHrtfs name devrate LoadedHrtfs = (Inr handle, cache)"
    and grown: "length cache = Suc (length LoadedHrtfs)"
    and e: "find (\<lambda>entry. mDispName entry = name) EnumeratedHrtfs = Some entry"
    and s: "open_stream env (HrtfEntry.mFilename entry) = Inr stream"
    and r: "read_data_set env stream = Inr hrtf"
  obtains hrtf' where "condition_store env devrate hrtf = Inr hrtf'"
    and "handle < length cache" and "mEntry (cache ! handle) = Some hrtf'"
proof -
  define first where "first = lower_bound LoadedHrtfs (HrtfEntry.mFilename entry)"
  obtain hit k where scan: "cache_scan (HrtfEntry.mFilename entry) devrate
      (drop first LoadedHrtfs) first = (hit, k)"
    by (cases "cache_scan (HrtfEntry.mFilename entry) devrate (drop first LoadedHrtfs) first")
  have "first \<le> length LoadedHrtfs"
    unfolding first_def lower_bound_def by (rule length_takeWhile_le)
  then have k: "k \<le> length LoadedHrtfs"
    using cache_scan_bound [of "HrtfEntry.mFilename entry" devrate "drop first LoadedHrtfs" first]
      scan by simp
  have nohit: "\<not> hit"
  proof
    assume hit
    then have "length cache = length LoadedHrtfs"
      using g e scan IncRef_length [of k LoadedHrtfs]
      by (auto simp: GetLoadedHrtf_def Let_def first_def split: option.splits)
    then show False using grown by simp
  qed
  from g e s r scan nohit obtain hrtf' where c: "condition_store env devrate hrtf = Inr hrtf'"
    and handle: "handle = k"
    and cache: "cache = take k LoadedHrtfs
        @ [\<lparr> LoadedHrtf.mFilename = HrtfEntry.mFilename entry, mEntry = Some hrtf' \<rparr>]
        @ drop k LoadedHrtfs"
    by (auto simp: GetLoadedHrtf_def Let_def first_def split: sum.splits)
  have "length (take k LoadedHrtfs) = k" using k by simp
  then have "cache ! k = \<lparr> LoadedHrtf.mFilename = HrtfEntry.mFilename entry,
      mEntry = Some hrtf' \<rparr>"
    unfolding cache using k by (simp add: nth_append)
  then have "mEntry (cache ! handle) = Some hrtf'" by (simp add: handle)
  moreover have "handle < length cache" using k grown by (simp add: handle)
  ultimately show thesis using c that by blast
qed

subsection \<open>Data sets that load\<close>

lemma stream_get_Cons: "stream_get (b # rest) = Some (uint b, rest)"
  by (simp add: stream_get_def)

lemma GetLE_ALubyte_Cons: "GetLE_ALubyte (b # rest) = Some (unat b, rest)"
proof -
  have "uint b < 2 ^ 8" using uint_bounded [of b] by simp
  then have "uint b mod 256 = uint b" by simp
  then show ?thesis by (simp add: GetLE_ALubyte_def stream_get_Cons)
qed

lemma read_n_numeral:
  "read_n (numeral k) rd data =
     (case rd data of
        None \<Rightarrow> None
      | Some (x, d1) \<Rightarrow>
          (case read_n (pred_numeral k) rd d1 of
             None \<Rightarrow> None
           | Some (xs, d2) \<Rightarrow> Some (x # xs, d2)))"
  by (simp add: numeral_eq_Suc)

lemma read_fields_numeral:
  "read_fields (numeral k) distances evcounts azcounts data =
     (case do { (dist_mm, d1) \<leftarrow> GetLE_ALushort data;
                (evcount, d2) \<leftarrow> GetLE_ALubyte d1;
                Some (dist_mm, evcount, d2) } of
        None \<Rightarrow> Inl ReadFailed
      | Some (dist_mm, evcount, d2) \<Rightarrow>
          if dist_mm < MIN_FD_DISTANCE \<or> dist_mm > MAX_FD_DISTANCE
             \<or> (distances \<noteq> [] \<and> dist_mm \<le> last distances)
             \<or> bad_ev_count evcount
          then Inl Unsupported
          else
            (case read_n evcount GetLE_ALubyte d2 of
               None \<Rightarrow> Inl ReadFailed
             | Some (azs, d3) \<Rightarrow>
                 if list_ex bad_az_count azs then Inl Unsupported
                 else read_fields (pred_numeral k) (distances @ [dist_mm]) (evcounts @ [evcount])
                        (azcounts @ azs) d3))"
  by (simp add: numeral_eq_Suc)

text \<open>A reader that takes \<open>k\<close> bytes fills a vector of \<open>n\<close> elements from \<open>n * k\<close> bytes.\<close>

lemma read_n_ex:
  assumes rd: "\<And>d. k \<le> length d \<Longrightarrow> \<exists>x. rd d = Some (x, drop k d)"
  shows "n * k \<le> length data \<Longrightarrow> \<exists>xs. read_n n rd data = Some (xs, drop (n * k) data)"
proof (induction n arbitrary: data)
  case 0
  then show ?case by simp
next
  case (Suc n)
  then have "k \<le> length data" by simp
  then obtain x where x: "rd data = Some (x, drop k data)" using rd by blast
  have "n * k \<le> length (drop k data)" using Suc.prems by simp
  then obtain xs where "read_n n rd (drop k data) = Some (xs, drop (n * k) (drop k data))"
    using Suc.IH by blast
  then show ?case using x by (simp add: add.commute)
qed

lemma GetLE_ALshort_ex: "2 \<le> length d \<Longrightarrow> \<exists>x. GetLE_ALshort d = Some (x, drop 2 d)"
proof -
  assume "2 \<le> length d"
  then obtain b0 b1 rest where "d = b0 # b1 # rest"
    by (cases d; cases "tl d") auto
  then show ?thesis by (simp add: GetLE_ALshort_def stream_get_Cons)
qed

lemma left_only_sample16_ex:
  "2 \<le> length d \<Longrightarrow> \<exists>x. left_only read_sample16 0 d = Some (x, drop 2 d)"
proof -
  assume "2 \<le> length d"
  then obtain x where "GetLE_ALshort d = Some (x, drop 2 d)"
    using GetLE_ALshort_ex by blast
  then have "left_only read_sample16 0 d = Some ((real_of_int x / 32768, 0), drop 2 d)"
    by (simp add: left_only_def read_sample16_def)
  then show ?thesis by blast
qed

lemma left_only_ubyte_Cons: "left_only GetLE_ALubyte 0 (b # rest) = Some ((unat b, 0), rest)"
  by (simp add: left_only_def GetLE_ALubyte_Cons)

lemma read_n_left_only_ubyte:
  "n \<le> length data
   \<Longrightarrow> read_n n (left_only GetLE_ALubyte 0) data
       = Some (map (\<lambda>b. (unat b, 0)) (take n data), drop n data)"
proof (induction n arbitrary: data)
  case 0
  then show ?case by simp
next
  case (Suc n)
  then obtain b rest where d: "data = b # rest" by (cases data) auto
  then have "n \<le> length rest" using Suc.prems by simp
  then show ?case by (simp add: d Suc.IH left_only_ubyte_Cons)
qed

lemma read_n_ubyte:
  "n \<le> length data \<Longrightarrow> read_n n GetLE_ALubyte data = Some (map unat (take n data), drop n data)"
proof (induction n arbitrary: data)
  case 0
  then show ?case by simp
next
  case (Suc n)
  then obtain b rest where d: "data = b # rest" by (cases data) auto
  then have "n \<le> length rest" using Suc.prems by simp
  then show ?case by (simp add: d Suc.IH GetLE_ALubyte_Cons)
qed

text \<open>
  The 16-bit coefficients and the delays of the left ear are read whenever the data is
  long enough and no delay byte is above \<open>MAX_HRIR_DELAY\<close>.
\<close>

lemma read_left_ear_ex:
  assumes len: "2 * (irsize * ircount) + ircount \<le> length data"
    and delays: "\<forall>b \<in> set (take ircount (drop (2 * (irsize * ircount)) data)).
                   unat b \<le> MAX_HRIR_DELAY history_length"
  shows "\<exists>cs ds. do { (cs, d1) \<leftarrow> read_n (irsize * ircount) (left_only read_sample16 0) data;
                      (ds, d2) \<leftarrow> read_n ircount (left_only GetLE_ALubyte 0) d1;
                      Some (cs, ds) } = Some (cs, ds)
           \<and> \<not> list_ex (\<lambda>d. MAX_HRIR_DELAY history_length < fst d) ds"
proof -
  define m where "m = 2 * (irsize * ircount)"
  have m: "irsize * ircount * 2 = m" by (simp add: m_def)
  have "irsize * ircount * 2 \<le> length data" using len by simp
  with left_only_sample16_ex obtain cs where
    "read_n (irsize * ircount) (left_only read_sample16 0) data
           = Some (cs, drop (irsize * ircount * 2) data)"
    using read_n_ex [of 2 "left_only read_sample16 0" "irsize * ircount" data] by blast
  then have cs: "read_n (irsize * ircount) (left_only read_sample16 0) data
           = Some (cs, drop m data)"
    by (simp only: m)
  have "ircount \<le> length (drop m data)" using len by (simp add: m_def)
  then have ds: "read_n ircount (left_only GetLE_ALubyte 0) (drop m data)
      = Some (map (\<lambda>b. (unat b, 0)) (take ircount (drop m data)),
              drop ircount (drop m data))"
    by (rule read_n_left_only_ubyte)
  have "\<not> list_ex (\<lambda>d. MAX_HRIR_DELAY history_length < fst d)
      (map (\<lambda>b. (unat b, 0 :: nat)) (take ircount (drop m data)))"
    using delays by (auto simp: list_ex_iff m_def)
  then show ?thesis using cs ds by simp
qed

lemma CreateHrtfStore_ex:
  "ok \<Longrightarrow> irsize \<le> hrir_length
   \<Longrightarrow> \<exists>h. CreateHrtfStore hrir_length ok rate irsize fdcount evcounts distances azcounts
             iroffsets ircount cs ds = Inr h"
  by (simp add: CreateHrtfStore_def)

lemma load_left_ear_ex:
  assumes ok: "ok" and irsize: "irsize \<le> hrir_length"
    and len: "2 * (irsize * ircount) + ircount \<le> length data"
    and delays: "\<forall>b \<in> set (take ircount (drop (2 * (irsize * ircount)) data)).
                   unat b \<le> MAX_HRIR_DELAY history_length"
    and guard: "list_all (\<lambda>ev. fst ev + snd ev \<le> ircount) (zip evOffset azcounts)"
  shows "\<exists>h. load_left_ear hrir_length history_length ok rate irsize evcount azcounts evOffset
               ircount data = Inr h"
proof -
  from read_left_ear_ex [OF len delays] obtain cs ds where
    rd: "do { (cs, d1) \<leftarrow> read_n (irsize * ircount) (left_only read_sample16 0) data;
              (ds, d2) \<leftarrow> read_n ircount (left_only GetLE_ALubyte 0) d1;
              Some (cs, ds) } = Some (cs, ds)"
    and good: "\<not> list_ex (\<lambda>d. MAX_HRIR_DELAY history_length < fst d) ds"
    by blast
  obtain cs' ds' where m: "mirror_left_to_right irsize ircount evOffset azcounts
      (cs, map (\<lambda>d. (shift_delay (fst d), snd d)) ds) = Inr (cs', ds')"
    using guard by (simp add: mirror_left_to_right_def) (metis surj_pair)
  from CreateHrtfStore_ex [OF ok irsize] obtain h where
    "CreateHrtfStore hrir_length ok rate irsize 1 [evcount] [0] azcounts evOffset ircount
       cs' ds' = Inr h"
    by blast
  then show ?thesis
    unfolding load_left_ear_def using rd good m by simp
qed

subsection \<open>Three small data sets\<close>

text \<open>
  One impulse response of 8 samples of 16 bits, and the coefficients and delays of 9
  such responses with the delays 1 to 9.
\<close>

definition example_ir :: istream where
  "example_ir = [0, 64, 0, 32, 0, 16, 0, 8, 0, 4, 0, 2, 0, 1, 128, 0]"

definition example_ir_data :: istream where
  "example_ir_data = concat (replicate 9 example_ir) @ [1, 2, 3, 4, 5, 6, 7, 8, 9]"

text \<open>
  A data set of format 0 (44100 Hz, 9 responses of 8 samples, 5 elevations at the
  offsets 0, 1, 3, 6, 8) and one of format 1 (22050 Hz, 8 samples, 5 elevations of
  1, 2, 3, 2, 1 azimuths), after the 8 bytes of the marker.
\<close>

definition mhr00_body :: istream where
  "mhr00_body = [0x44, 0xAC, 0, 0, 9, 0, 8, 0, 5, 0, 0, 1, 0, 3, 0, 6, 0, 8, 0]
     @ example_ir_data"

definition mhr01_body :: istream where
  "mhr01_body = [0x22, 0x56, 0, 0, 8, 5, 1, 2, 3, 2, 1] @ example_ir_data"

text \<open>
  A data set of format 2: 44100 Hz, 16-bit samples, left ear only, 8 samples, and two
  fields, the first at 500 mm with 1, 2, 3, 2, 1 azimuths and the second at 1000 mm with
  1, 4, 6, 4, 1 azimuths; 25 responses.
\<close>

definition mhr02_ir_data :: istream where
  "mhr02_ir_data = concat (replicate 25 example_ir)
     @ [1, 2, 3, 4, 5, 6, 7, 8, 9, 10, 11, 12, 13, 14, 15, 16, 17, 18, 19, 20, 21, 22, 23, 24, 25]"

definition mhr02_body :: istream where
  "mhr02_body = [0x44, 0xAC, 0, 0, 0, 0, 8, 2,
                 0xF4, 0x01, 5, 1, 2, 3, 2, 1,
                 0xE8, 0x03, 5, 1, 4, 6, 4, 1] @ mhr02_ir_data"

lemma concat_replicate_length: "length (concat (replicate n xs)) = n * length xs"
  by (induction n) simp_all

lemma example_irs_length: "length (concat (replicate n example_ir)) = n * 16"
  by (simp add: concat_replicate_length example_ir_def)

lemma example_ir_data_length: "length example_ir_data = 153"
  by (simp add: example_ir_data_def example_irs_length)

lemma example_ir_data_delays:
  "take 9 (drop 144 example_ir_data) = [1, 2, 3, 4, 5, 6, 7, 8, 9]"
  by (simp add: example_ir_data_def example_irs_length)

lemma mhr02_ir_data_length: "length mhr02_ir_data = 425"
  by (simp add: mhr02_ir_data_def example_irs_length)

lemma mhr02_ir_data_delays:
  "take 25 (drop 400 mhr02_ir_data)
   = [1, 2, 3, 4, 5, 6, 7, 8, 9, 10, 11, 12, 13, 14, 15, 16, 17, 18, 19, 20, 21, 22, 23, 24, 25]"
  by (simp add: mhr02_ir_data_def example_irs_length)

lemma load_left_ear_header:
  "load_left_ear hrir_length history_length ok rate irsize evcount azcounts evOffset ircount data
     = Inr h
   \<Longrightarrow> sampleRate h = rate \<and> irSize h = irsize"
  by (auto simp: load_left_ear_def CreateHrtfStore_def
      split: option.splits sum.splits if_splits prod.splits)

lemma example_left_ear:
  "\<exists>h. load_left_ear 32 64 True rate 8 5 [1, 2, 3, 2, 1] [0, 1, 3, 6, 8] 9 example_ir_data
         = Inr h"
  by (rule load_left_ear_ex)
    (simp_all add: example_ir_data_length example_ir_data_delays MAX_HRIR_DELAY_def)

lemma mhr01_header:
  "GetLE_ALuint mhr01_body = Some (22050, drop 4 mhr01_body)"
  by (simp add: mhr01_body_def GetLE_ALuint_def stream_get_Cons)

lemma mhr01_loads:
  "\<exists>h. LoadHrtf01 32 64 True mhr01_body = Inr h \<and> sampleRate h = 22050 \<and> irSize h = 8"
proof -
  from example_left_ear obtain h where
    h: "load_left_ear 32 64 True 22050 8 5 [1, 2, 3, 2, 1] [0, 1, 3, 6, 8] 9 example_ir_data
          = Inr h"
    by blast
  have "LoadHrtf01 32 64 True mhr01_body = Inr h"
    using h
    by (simp add: LoadHrtf01_def mhr01_body_def GetLE_ALuint_def GetLE_ALubyte_Cons
        stream_get_Cons read_n_ubyte bad_ir_size_def bad_ev_count_def bad_az_count_def
        MIN_IR_SIZE_def MAX_IR_SIZE_def MOD_IR_SIZE_def MIN_EV_COUNT_def MAX_EV_COUNT_def
        MIN_AZ_COUNT_def MAX_AZ_COUNT_def ALushort_sum_def)
  then show ?thesis using load_left_ear_header [OF h] by blast
qed


lemma mhr00_loads:
  "\<exists>h. LoadHrtf00 32 64 True mhr00_body = Inr h"
proof -
  from example_left_ear obtain h where
    h: "load_left_ear 32 64 True 44100 8 5 [1, 2, 3, 2, 1] [0, 1, 3, 6, 8] 9 example_ir_data
          = Inr h"
    by blast
  have "LoadHrtf00 32 64 True mhr00_body = Inr h"
    using h
    by (simp add: LoadHrtf00_def mhr00_body_def GetLE_ALuint_def GetLE_ALushort_def
        GetLE_ALubyte_Cons stream_get_Cons read_n_numeral bad_ir_size_def bad_ev_count_def
        bad_az_count_def MIN_IR_SIZE_def MAX_IR_SIZE_def MOD_IR_SIZE_def MIN_EV_COUNT_def
        MAX_EV_COUNT_def MIN_AZ_COUNT_def MAX_AZ_COUNT_def ALushort_diff_def)
  then show ?thesis by blast
qed

lemma read_ir_data_left_only_ex:
  assumes len: "2 * (irsize * irTotal) + irTotal \<le> length data"
    and delays: "\<forall>b \<in> set (take irTotal (drop (2 * (irsize * irTotal)) data)).
                   unat b \<le> MAX_HRIR_DELAY history_length"
  shows "\<exists>cs ds. read_ir_data history_length SAMPLETYPE_S16 CHANTYPE_LEFTONLY irsize irTotal data
                   = Inr (cs, ds)"
proof -
  from read_left_ear_ex [OF len delays] obtain cs ds where
    "do { (cs, d1) \<leftarrow> read_n (irsize * irTotal) (left_only read_sample16 0) data;
          (ds, d2) \<leftarrow> read_n irTotal (left_only GetLE_ALubyte 0) d1;
          Some (cs, ds) } = Some (cs, ds)"
    and "\<not> list_ex (\<lambda>d. MAX_HRIR_DELAY history_length < fst d) ds"
    by blast
  then show ?thesis
    by (simp add: read_ir_data_def read_sample_def)
qed

lemma load_tables02_left_only_ex:
  assumes rf: "read_fields fdcount [] [] [] data = Inr ((distances, evcounts, azcounts), d1)"
    and tot: "irTotal = (last (running_offsets 0 azcounts) + last azcounts) mod 65536"
    and len: "2 * (irsize * irTotal) + irTotal \<le> length d1"
    and delays: "\<forall>b \<in> set (take irTotal (drop (2 * (irsize * irTotal)) d1)).
                   unat b \<le> MAX_HRIR_DELAY history_length"
    and guard: "list_all (\<lambda>ev. fst ev + snd ev \<le> irTotal)
                  (zip (running_offsets 0 azcounts) azcounts)"
    and sum: "sum_list azcounts \<le> irTotal"
  shows "\<exists>t. load_tables02 history_length SAMPLETYPE_S16 CHANTYPE_LEFTONLY irsize fdcount data
               = Inr (irTotal, t)
            \<and> ft_distance t = (if 1 < fdcount then rev distances else distances)
            \<and> ft_evCount t = (if 1 < fdcount then rev evcounts else evcounts)"
proof -
  from read_ir_data_left_only_ex [OF len delays] obtain cs ds where
    rd: "read_ir_data history_length SAMPLETYPE_S16 CHANTYPE_LEFTONLY irsize irTotal d1
           = Inr (cs, ds)"
    by blast
  obtain cs' ds' where m: "mirror_left_to_right irsize irTotal (running_offsets 0 azcounts)
      azcounts (cs, ds) = Inr (cs', ds')"
    using guard by (simp add: mirror_left_to_right_def) (metis surj_pair)
  show ?thesis
    unfolding load_tables02_def
    using rf rd m sum by (simp add: Let_def tot [symmetric] reverse_fields_def)
qed

lemma mhr02_fields:
  "read_fields 2 [] [] [] (drop 8 mhr02_body)
   = Inr (([500, 1000], [5, 5], [1, 2, 3, 2, 1, 1, 4, 6, 4, 1]), mhr02_ir_data)"
  by (simp add: mhr02_body_def read_fields_numeral GetLE_ALushort_def stream_get_Cons
      GetLE_ALubyte_Cons read_n_ubyte bad_ev_count_def bad_az_count_def MIN_EV_COUNT_def
      MAX_EV_COUNT_def MIN_AZ_COUNT_def MAX_AZ_COUNT_def MIN_FD_DISTANCE_def
      MAX_FD_DISTANCE_def)

lemma mhr02_tables:
  "\<exists>t. load_tables02 64 SAMPLETYPE_S16 CHANTYPE_LEFTONLY 8 2 (drop 8 mhr02_body) = Inr (25, t)
       \<and> ft_distance t = [1000, 500] \<and> ft_evCount t = [5, 5]"
proof -
  have "\<exists>t. load_tables02 64 SAMPLETYPE_S16 CHANTYPE_LEFTONLY 8 2 (drop 8 mhr02_body)
               = Inr (25, t)
            \<and> ft_distance t = (if 1 < (2 :: nat) then rev [500, 1000] else [500, 1000])
            \<and> ft_evCount t = (if 1 < (2 :: nat) then rev [5, 5] else [5, 5])"
    using mhr02_fields
    by (rule load_tables02_left_only_ex)
      (simp_all add: mhr02_ir_data_length mhr02_ir_data_delays MAX_HRIR_DELAY_def)
  then show ?thesis by simp
qed

lemma mhr02_header:
  "GetLE_ALuint mhr02_body = Some (44100, drop 4 mhr02_body)"
  "GetLE_ALubyte (drop 4 mhr02_body) = Some (SAMPLETYPE_S16, drop 5 mhr02_body)"
  "GetLE_ALubyte (drop 5 mhr02_body) = Some (CHANTYPE_LEFTONLY, drop 6 mhr02_body)"
  "GetLE_ALubyte (drop 6 mhr02_body) = Some (8, drop 7 mhr02_body)"
  "GetLE_ALubyte (drop 7 mhr02_body) = Some (2, drop 8 mhr02_body)"
  by (simp_all add: mhr02_body_def GetLE_ALuint_def stream_get_Cons GetLE_ALubyte_Cons
      SAMPLETYPE_S16_def CHANTYPE_LEFTONLY_def)

lemma mhr02_loads:
  "\<exists>h. LoadHrtf02 32 64 True mhr02_body = Inr h \<and> fdCount h = 2
       \<and> map distance (field h) = [1, 1 / 2]"
proof -
  from mhr02_tables obtain t where
    t: "load_tables02 64 SAMPLETYPE_S16 CHANTYPE_LEFTONLY 8 2 (drop 8 mhr02_body) = Inr (25, t)"
    and d: "ft_distance t = [1000, 500]" and e: "ft_evCount t = [5, 5]"
    by blast
  obtain h where c: "CreateHrtfStore 32 True 44100 8 2 (ft_evCount t) (ft_distance t)
      (ft_azCount t) (ft_evOffset t) 25 (ft_coeffs t) (ft_delays t) = Inr h"
    using CreateHrtfStore_ex [of True 8 32 44100 2 "ft_evCount t" "ft_distance t"
        "ft_azCount t" "ft_evOffset t" 25 "ft_coeffs t" "ft_delays t"]
    by auto
  have 1: "LoadHrtf02 32 64 True mhr02_body = Inr h"
    using t c
    by (simp add: LoadHrtf02_def mhr02_header SAMPLETYPE_S16_def SAMPLETYPE_S24_def
        CHANTYPE_LEFTONLY_def CHANTYPE_LEFTRIGHT_def bad_ir_size_def MIN_IR_SIZE_def
        MAX_IR_SIZE_def MOD_IR_SIZE_def MAX_FD_COUNT_def)
  have 2: "fdCount h = 2" using CreateHrtfStore_Inr(4) [OF c] .
  have "[0..<2] = [0, Suc 0]" by (simp add: numeral_2_eq_2)
  then have 3: "map distance (field h) = [1, 1 / 2]"
    using CreateHrtfStore_Inr(5) [OF c] by (simp add: d)
  show ?thesis
    by (rule exI [of _ h]) (simp only: 1 2 3 simp_thms)
qed

subsection \<open>Loading the example data sets through \<open>GetLoadedHrtf\<close>\<close>

text \<open>
  An environment whose files are the data sets of format 1 and 2 above, with the
  \<open>hrtf-size\<close> option as given, and the entries that name them.
\<close>

definition example_environment :: "nat option \<Rightarrow> environment" where
  "example_environment opt = \<lparr> HRIR_LENGTH = 32, HRTF_HISTORY_LENGTH = 64, alloc_ok = True,
     resample = (\<lambda>srcrate dstrate samples. samples),
     open_file = (\<lambda>fname.
       if fname = ''mhr01.mhr'' then Some (magicMarker01 @ mhr01_body)
       else if fname = ''mhr02.mhr'' then Some (magicMarker02 @ mhr02_body)
       else None),
     hrtf_default = [], hrtf_size = opt \<rparr>"

definition loadable_entries :: "HrtfEntry list" where
  "loadable_entries =
     [\<lparr> mDispName = ''one'', mFilename = ''mhr01.mhr'' \<rparr>,
      \<lparr> mDispName = ''two'', mFilename = ''mhr02.mhr'' \<rparr>]"

lemma magicMarker_length:
  "length magicMarker00 = 8" "length magicMarker01 = 8" "length magicMarker02 = 8"
  by (simp_all add: magicMarker00_def magicMarker01_def magicMarker02_def)

lemma read_data_set_mhr01:
  "read_data_set (example_environment opt) (magicMarker01 @ mhr01_body)
   = (case LoadHrtf01 32 64 True mhr01_body of
        Inl e \<Rightarrow> Inl (LoadFailed e) | Inr hrtf \<Rightarrow> Inr hrtf)"
  using magicMarker_distinct
  by (simp add: read_data_set_def magicMarker_length example_environment_def)

lemma read_data_set_mhr02:
  "read_data_set (example_environment opt) (magicMarker02 @ mhr02_body)
   = (case LoadHrtf02 32 64 True mhr02_body of
        Inl e \<Rightarrow> Inl (LoadFailed e) | Inr hrtf \<Rightarrow> Inr hrtf)"
  by (simp add: read_data_set_def magicMarker_length example_environment_def)

lemma example_read:
  "\<exists>h. read_data_set (example_environment opt) (magicMarker01 @ mhr01_body) = Inr h
       \<and> sampleRate h = 22050 \<and> irSize h = 8"
proof -
  from mhr01_loads obtain h where "LoadHrtf01 32 64 True mhr01_body = Inr h"
    and "sampleRate h = 22050" and "irSize h = 8"
    by blast
  then show ?thesis
    by (intro exI [of _ h]) (simp add: read_data_set_mhr01)
qed

lemma example_find:
  "find (\<lambda>entry. mDispName entry = ''one'') loadable_entries
   = Some \<lparr> mDispName = ''one'', mFilename = ''mhr01.mhr'' \<rparr>"
  by (simp add: loadable_entries_def)

lemma example_open:
  "open_stream (example_environment opt) ''mhr01.mhr'' = Inr (magicMarker01 @ mhr01_body)"
  by (simp add: open_stream_def resource_index_def example_environment_def)

lemma example_call:
  assumes "read_data_set (example_environment opt) (magicMarker01 @ mhr01_body) = Inr h"
    and "sampleRate h = 22050"
  shows "GetLoadedHrtf (example_environment opt) loadable_entries ''one'' 44100 []
     = (Inr 0, [\<lparr> mFilename = ''mhr01.mhr'',
                  mEntry = Some (apply_hrtf_size opt
                    (resample_store (example_environment opt) 44100 h)) \<rparr>])"
proof -
  have "condition_store (example_environment opt) 44100 h
      = Inr (apply_hrtf_size opt (resample_store (example_environment opt) 44100 h))"
    using assms(2) by (simp add: condition_store_def) (simp add: example_environment_def)
  then show ?thesis
    using assms(1)
    by (simp add: GetLoadedHrtf_def example_find Let_def lower_bound_def example_open)
qed



subsection \<open>The order of the fields\<close>

text \<open>
  C2. Every store that a loader returns, of any of the three formats, lists its fields
  by falling distance: \<open>field[i + 1].distance < field[i].distance\<close> for every \<open>i\<close> in
  \<open>[0, fdCount - 1)\<close>. The loader of format 2 accepts only files whose distances rise and
  then reverses the fields when there is more than one; the formats 0 and 1 have one
  field.
\<close>

theorem loaded_distances_decreasing:
  assumes "read_data_set env stream = Inr h"
  shows "distances_decreasing h"
  using assms by (rule read_data_set_store(2))

theorem loaded_distances_decreasing_witness:
  "\<exists>h. read_data_set (example_environment None) (magicMarker02 @ mhr02_body) = Inr h
       \<and> fdCount h = 2 \<and> distances_decreasing h"
proof -
  from mhr02_loads obtain h where h: "LoadHrtf02 32 64 True mhr02_body = Inr h
      \<and> fdCount h = 2 \<and> map distance (field h) = [1, 1 / 2]" ..
  note l = h [THEN conjunct1] and fd = h [THEN conjunct2, THEN conjunct1]
  have r: "read_data_set (example_environment None) (magicMarker02 @ mhr02_body) = Inr h"
    by (simp add: read_data_set_mhr02 l)
  from loaded_distances_decreasing [OF r] have "distances_decreasing h" .
  with r fd show ?thesis by (intro exI [of _ h]) simp
qed

text \<open>
  The store of the two-field data set has the distances 1 m and 0.5 m in this order, so
  its distances do not rise.
\<close>

theorem loaded_distances_not_increasing:
  "\<exists>h. read_data_set (example_environment None) (magicMarker02 @ mhr02_body) = Inr h
       \<and> fdCount h = 2 \<and> map distance (field h) = [1, 1 / 2] \<and> \<not> distances_increasing h"
proof -
  from mhr02_loads obtain h where h: "LoadHrtf02 32 64 True mhr02_body = Inr h
      \<and> fdCount h = 2 \<and> map distance (field h) = [1, 1 / 2]" ..
  note l = h [THEN conjunct1] and fd = h [THEN conjunct2, THEN conjunct1]
    and d = h [THEN conjunct2, THEN conjunct2]
  have r: "read_data_set (example_environment None) (magicMarker02 @ mhr02_body) = Inr h"
    by (simp add: read_data_set_mhr02 l)
  from d obtain f0 f1 where f: "field h = [f0, f1]"
    and f0: "distance f0 = 1" and f1: "distance f1 = 1 / 2"
    by (auto simp: map_eq_Cons_conv)
  have one: "[0..<fdCount h - 1] = [0]" by (simp add: fd)
  have n: "\<not> distances_increasing h"
    unfolding distances_increasing_def one by (simp add: f f0 f1)
  show ?thesis
  proof (intro exI [of _ h] conjI)
    show "read_data_set (example_environment None) (magicMarker02 @ mhr02_body) = Inr h"
      by (rule r)
    show "fdCount h = 2" by (rule fd)
    show "map distance (field h) = [1, 1 / 2]" by (rule d)
    show "\<not> distances_increasing h" by (rule n)
  qed
qed

subsection \<open>Mirroring\<close>

text \<open>
  C5. After a load of a left-only data set (format 0, format 1, or format 2 with the
  channel type \<open>LeftOnly\<close> in its header), for every elevation of the store, with its
  azimuth count \<open>azCount\<close> and IR offset \<open>irOffset\<close>, and every \<open>j\<close> in \<open>[0, azCount)\<close>,
  the right delay and the right-channel coefficients of the IR
  \<open>irOffset + ((azCount - j) mod azCount)\<close> are the left delay and the left-channel
  coefficients of the IR \<open>irOffset + j\<close>.
\<close>

theorem left_only_store_mirrored:
  "(LoadHrtf00 hrir_length history_length ok data = Inr h \<longrightarrow> store_mirrored h)
   \<and> (LoadHrtf01 hrir_length history_length ok data = Inr h \<longrightarrow> store_mirrored h)
   \<and> (LoadHrtf02 hrir_length history_length ok data = Inr h
        \<and> GetLE_ALuint data = Some (rate, d1) \<and> GetLE_ALubyte d1 = Some (sampleType, d2)
        \<and> GetLE_ALubyte d2 = Some (CHANTYPE_LEFTONLY, d3)
      \<longrightarrow> store_mirrored h)"
proof (intro conjI impI)
  assume "LoadHrtf00 hrir_length history_length ok data = Inr h"
  then show "store_mirrored h" by (rule LoadHrtf00_store(1))
next
  assume "LoadHrtf01 hrir_length history_length ok data = Inr h"
  then show "store_mirrored h" by (rule LoadHrtf01_store(1))
next
  assume a: "LoadHrtf02 hrir_length history_length ok data = Inr h
        \<and> GetLE_ALuint data = Some (rate, d1) \<and> GetLE_ALubyte d1 = Some (sampleType, d2)
        \<and> GetLE_ALubyte d2 = Some (CHANTYPE_LEFTONLY, d3)"
  then have l: "LoadHrtf02 hrir_length history_length ok data = Inr h"
    and r: "GetLE_ALuint data = Some (rate, d1)"
    and s: "GetLE_ALubyte d1 = Some (sampleType, d2)"
    and c: "GetLE_ALubyte d2 = Some (CHANTYPE_LEFTONLY, d3)"
    by simp_all
  from l r s c show "store_mirrored h" by (rule LoadHrtf02_store(3))
qed

theorem left_only_store_mirrored_witness:
  "(\<exists>h. LoadHrtf00 32 64 True mhr00_body = Inr h \<and> store_mirrored h)
   \<and> (\<exists>h. LoadHrtf01 32 64 True mhr01_body = Inr h \<and> store_mirrored h)
   \<and> (\<exists>h. LoadHrtf02 32 64 True mhr02_body = Inr h \<and> store_mirrored h)"
proof (intro conjI)
  from mhr00_loads obtain h where l: "LoadHrtf00 32 64 True mhr00_body = Inr h" by blast
  with left_only_store_mirrored [of 32 64 True mhr00_body h] have "store_mirrored h" by simp
  with l show "\<exists>h. LoadHrtf00 32 64 True mhr00_body = Inr h \<and> store_mirrored h"
    by (intro exI [of _ h]) simp
next
  from mhr01_loads obtain h where l: "LoadHrtf01 32 64 True mhr01_body = Inr h" by blast
  with left_only_store_mirrored [of 32 64 True mhr01_body h] have "store_mirrored h" by simp
  with l show "\<exists>h. LoadHrtf01 32 64 True mhr01_body = Inr h \<and> store_mirrored h"
    by (intro exI [of _ h]) simp
next
  from mhr02_loads obtain h where h: "LoadHrtf02 32 64 True mhr02_body = Inr h
      \<and> fdCount h = 2 \<and> map distance (field h) = [1, 1 / 2]" ..
  note l = h [THEN conjunct1]
  with left_only_store_mirrored [of 32 64 True mhr02_body h 44100 "drop 4 mhr02_body"
      SAMPLETYPE_S16 "drop 5 mhr02_body" "drop 6 mhr02_body"] mhr02_header(1,2,3)
  have "store_mirrored h" by simp
  with l show "\<exists>h. LoadHrtf02 32 64 True mhr02_body = Inr h \<and> store_mirrored h"
    by (intro exI [of _ h]) simp
qed

subsection \<open>Conditioning to the device rate\<close>

text \<open>
  C6. Take a call of \<open>GetLoadedHrtf\<close> that reads the file (it returns a store and leaves
  the cache one slot longer), with the store \<open>hrtf\<close> as the loader returned it. When the
  sample rate of \<open>hrtf\<close> differs from the device rate, each delay of the cached store, of
  both channels of every IR, is the old delay times \<open>devrate / srate\<close> rounded to the
  nearest integer and clamped to \<open>MAX_HRIR_DELAY * HRIR_DELAY_FRACONE\<close>: the 64-bit
  arithmetic of the source does not wrap and the cast to a byte keeps the value.
\<close>

theorem GetLoadedHrtf_rescales_delays:
  assumes "GetLoadedHrtf env EnumeratedHrtfs name devrate LoadedHrtfs = (Inr handle, cache)"
    and "length cache = Suc (length LoadedHrtfs)"
    and "find (\<lambda>entry. mDispName entry = name) EnumeratedHrtfs = Some entry"
    and "open_stream env (HrtfEntry.mFilename entry) = Inr stream"
    and "read_data_set env stream = Inr hrtf"
    and "sampleRate hrtf \<noteq> devrate" and "devrate < 2 ^ 32"
    and "delay_static_assert (HRTF_HISTORY_LENGTH env)"
  shows "\<exists>hrtf'. handle < length cache \<and> mEntry (cache ! handle) = Some hrtf'
           \<and> delays hrtf' =
               map (\<lambda>d. (nearest_delay (HRTF_HISTORY_LENGTH env) (sampleRate hrtf) devrate (fst d),
                         nearest_delay (HRTF_HISTORY_LENGTH env) (sampleRate hrtf) devrate (snd d)))
                 (delays hrtf)"
proof -
  from assms(1-5) obtain hrtf' where c: "condition_store env devrate hrtf = Inr hrtf'"
    and h: "handle < length cache" and m: "mEntry (cache ! handle) = Some hrtf'"
    by (rule GetLoadedHrtf_fresh)
  have "loaded_store_ok hrtf" using assms(5) by (rule read_data_set_store(1))
  from condition_store_delays [OF this assms(6) assms(7) assms(8) c] h m
  show ?thesis by blast
qed

theorem GetLoadedHrtf_rescales_delays_witness:
  "\<exists>h h'. read_data_set (example_environment None) (magicMarker01 @ mhr01_body) = Inr h
       \<and> sampleRate h = 22050
       \<and> GetLoadedHrtf (example_environment None) loadable_entries ''one'' 44100 []
           = (Inr 0, [\<lparr> mFilename = ''mhr01.mhr'', mEntry = Some h' \<rparr>])
       \<and> delays h' = map (\<lambda>d. (nearest_delay 64 22050 44100 (fst d),
                                nearest_delay 64 22050 44100 (snd d))) (delays h)"
proof -
  from example_read [of None] obtain h where
    r: "read_data_set (example_environment None) (magicMarker01 @ mhr01_body) = Inr h"
    and rate: "sampleRate h = 22050"
    by blast
  define h' where "h' = apply_hrtf_size None (resample_store (example_environment None) 44100 h)"
  have g: "GetLoadedHrtf (example_environment None) loadable_entries ''one'' 44100 []
      = (Inr 0, [\<lparr> mFilename = ''mhr01.mhr'', mEntry = Some h' \<rparr>])"
    unfolding h'_def using r rate by (rule example_call)
  have sa: "delay_static_assert (HRTF_HISTORY_LENGTH (example_environment None))"
    by (simp add: delay_static_assert_def example_environment_def MAX_HRIR_DELAY_def
        HRIR_DELAY_FRACONE_def HRIR_DELAY_FRACBITS_def)
  have hist: "HRTF_HISTORY_LENGTH (example_environment None) = 64"
    by (simp add: example_environment_def)
  from GetLoadedHrtf_rescales_delays [OF g _ example_find _ r _ _ sa]
  have res: "delays h' = map (\<lambda>d. (nearest_delay 64 22050 44100 (fst d),
                               nearest_delay 64 22050 44100 (snd d))) (delays h)"
    by (simp add: example_open rate hist)
  show ?thesis
    by (insert r rate g res, rule exI [of _ h], rule exI [of _ h'], simp)
qed




end
